theory Spec2Isabelle
  imports Main "HOL-Library.Word"
begin

unbundle bit_operations_syntax

section \<open>Byte store and machine words\<close>

text \<open>
  The packet buffer \<^verbatim>\<open>uint8_t data[MAX_PACKET_SIZE]\<close> of \<^verbatim>\<open>main.c\<close> is handed to every
  routine of \<^verbatim>\<open>eth0.c\<close> as \<^verbatim>\<open>uint8_t packet[]\<close> and read through overlapping struct
  views (\<^verbatim>\<open>etherFrame\<close>, \<^verbatim>\<open>ipFrame\<close>, \<^verbatim>\<open>tcpFrame\<close>, ...). It is modelled as a store from
  byte offsets (relative to \<^verbatim>\<open>packet\<close>) to bytes, so that aliasing between the views is
  what it is in the C code. The C code performs no bounds check; offsets from
  \<^verbatim>\<open>MAX_PACKET_SIZE\<close> on lie outside the array.
\<close>

type_synonym u8 = "8 word"
type_synonym u16 = "16 word"
type_synonym u32 = "32 word"
type_synonym mem = "nat \<Rightarrow> u8"

definition MAX_PACKET_SIZE :: nat where
  "MAX_PACKET_SIZE = 1522"

definition HW_ADD_LENGTH :: nat where
  "HW_ADD_LENGTH = 6"

definition IP_ADD_LENGTH :: nat where
  "IP_ADD_LENGTH = 4"

text \<open>The target is little endian: a \<^verbatim>\<open>uint16_t\<close> field at offset \<open>a\<close> has its low byte first.\<close>

definition rd16 :: "mem \<Rightarrow> nat \<Rightarrow> u16" where
  "rd16 m a = ucast (m a) OR push_bit 8 (ucast (m (a + 1)))"

definition wr16 :: "mem \<Rightarrow> nat \<Rightarrow> u16 \<Rightarrow> mem" where
  "wr16 m a v = m(a := ucast v, a + 1 := ucast (drop_bit 8 v))"

definition rd32 :: "mem \<Rightarrow> nat \<Rightarrow> u32" where
  "rd32 m a = ucast (m a) OR push_bit 8 (ucast (m (a + 1)))
     OR push_bit 16 (ucast (m (a + 2))) OR push_bit 24 (ucast (m (a + 3)))"

definition wr32 :: "mem \<Rightarrow> nat \<Rightarrow> u32 \<Rightarrow> mem" where
  "wr32 m a v = m(a := ucast v, a + 1 := ucast (drop_bit 8 v),
     a + 2 := ucast (drop_bit 16 v), a + 3 := ucast (drop_bit 24 v))"

text \<open>\<^verbatim>\<open>htons\<close> and \<^verbatim>\<open>htols\<close> of \<^verbatim>\<open>eth0.c\<close>; \<^verbatim>\<open>ntohs\<close> is the same function.\<close>

definition htons :: "u16 \<Rightarrow> u16" where
  "htons v = drop_bit 8 (v AND 0xFF00) + push_bit 8 (v AND 0x00FF)"

definition htols :: "u32 \<Rightarrow> u32" where
  "htols v =
     (let tmp_a = drop_bit 24 (v AND 0xff000000);
          tmp_b = drop_bit 8 (v AND 0x00ff0000);
          tmp_c = push_bit 8 (v AND 0x0000ff00);
          tmp_d = push_bit 24 (v AND 0x000000ff)
      in tmp_d OR tmp_c OR tmp_b OR tmp_a)"

section \<open>Checksum engine\<close>

text \<open>
  \<^verbatim>\<open>etherSumWords(data, sizeInBytes)\<close> adds \<open>n\<close> bytes starting at offset \<open>a\<close> to the
  32-bit accumulator \<^verbatim>\<open>sum\<close>; the byte at an even position of the region goes to the
  low half, the next one is shifted left by 8. The phase starts at 0 in every call.
\<close>

fun sumWords_loop :: "mem \<Rightarrow> nat \<Rightarrow> nat \<Rightarrow> bool \<Rightarrow> u32 \<Rightarrow> u32" where
  "sumWords_loop m a 0 phase s = s"
| "sumWords_loop m a (Suc n) phase s =
     sumWords_loop m (a + 1) n (\<not> phase)
       (if phase then s + push_bit 8 (ucast (m a)) else s + ucast (m a))"

lemma sumWords_loop_numeral:
  "sumWords_loop m a (numeral k) phase s =
     sumWords_loop m (a + 1) (pred_numeral k) (\<not> phase)
       (if phase then s + push_bit 8 (ucast (m a)) else s + ucast (m a))"
  by (simp add: numeral_eq_Suc)

definition etherSumWords :: "mem \<Rightarrow> nat \<Rightarrow> nat \<Rightarrow> u32 \<Rightarrow> u32" where
  "etherSumWords m a sizeInBytes s = sumWords_loop m a sizeInBytes False s"

text \<open>The folding loop of \<^verbatim>\<open>getEtherChecksum\<close>.\<close>

function fold_carries :: "u32 \<Rightarrow> u32" where
  "fold_carries s =
     (if drop_bit 16 s > 0 then fold_carries ((s AND 0xFFFF) + drop_bit 16 s) else s)"
  by pat_completeness auto

lemma unat_and_ffff: "unat ((s::u32) AND 0xFFFF) = unat s mod 65536"
proof -
  have "(s AND 0xFFFF) = take_bit 16 s"
    by (simp add: take_bit_eq_mask mask_eq_exp_minus_1)
  then show ?thesis by (simp add: unat_mod take_bit_eq_mod)
qed

lemma unat_drop16: "unat (drop_bit 16 (s::u32)) = unat s div 65536"
  by (simp add: drop_bit_eq_div unat_div)

lemma unat_fold_step:
  "unat (((s::u32) AND 0xFFFF) + drop_bit 16 s) = unat s mod 65536 + unat s div 65536"
proof -
  have "unat s < 2 ^ 32" using unsigned_less [of s] by simp
  then show ?thesis by (simp add: unat_word_ariths unat_and_ffff unat_drop16)
qed

lemma fold_step_less:
  fixes s :: u32
  assumes "drop_bit 16 s > 0"
  shows "unat ((s AND 0xFFFF) + drop_bit 16 s) < unat s"
proof -
  have d: "unat s div 65536 > 0"
    using assms unat_drop16 [of s] by (simp add: word_less_nat_alt)
  have "unat s = 65536 * (unat s div 65536) + unat s mod 65536" by simp
  then show ?thesis using d unat_fold_step [of s] by linarith
qed

termination fold_carries
  by (relation "measure unat") (auto simp: fold_step_less)

declare fold_carries.simps [simp del]

text \<open>
  \<^verbatim>\<open>getEtherChecksum\<close> folds the accumulator and returns the bit-inverted low half as
  a \<^verbatim>\<open>uint16_t\<close>. Every checksum computation of \<^verbatim>\<open>eth0.c\<close> starts with
  \<^verbatim>\<open>sum = 0\<close>, so the accumulator is passed explicitly and starts at 0.
\<close>

definition getEtherChecksum :: "u32 \<Rightarrow> u16" where
  "getEtherChecksum s = NOT (ucast (fold_carries s AND 0xFFFF))"

text \<open>The IP header length in bytes, \<^verbatim>\<open>(ip->revSize & 0xF) * 4\<close>, for the header at offset \<open>ip\<close>.\<close>

definition ip_hlen :: "mem \<Rightarrow> nat \<Rightarrow> nat" where
  "ip_hlen m ip = unat (m ip AND 0xF) * 4"

text \<open>A C \<^verbatim>\<open>int\<close> passed for a \<^verbatim>\<open>uint16_t\<close> parameter is reduced modulo \<open>2^16\<close>.\<close>

definition to_u16 :: "int \<Rightarrow> nat" where
  "to_u16 i = nat (i mod 65536)"

text \<open>
  \<^verbatim>\<open>etherCalcIpChecksum(ip)\<close>: sums the first 10 header bytes and the bytes from the
  source address on, and stores the result in \<^verbatim>\<open>ip->headerChecksum\<close> (offset 10 of the
  header). The same three statements are inlined in every builder of \<^verbatim>\<open>eth0.c\<close>.
\<close>

definition etherCalcIpChecksum :: "mem \<Rightarrow> nat \<Rightarrow> mem" where
  "etherCalcIpChecksum m ip =
     (let s0 = 0;
          s1 = etherSumWords m ip 10 s0;
          s2 = etherSumWords m (ip + 12) (to_u16 (int (ip_hlen m ip) - 12)) s1
      in wr16 m (ip + 10) (getEtherChecksum s2))"

text \<open>The checksum test of \<^verbatim>\<open>etherIsIp\<close>: reset, sum the whole header, fold.\<close>

definition ip_header_check :: "mem \<Rightarrow> nat \<Rightarrow> u16" where
  "ip_header_check m ip = getEtherChecksum (etherSumWords m ip (ip_hlen m ip) 0)"

subsection \<open>RFC 1071 reference\<close>

text \<open>
  The specification's side of the checksum claims: a region of bytes seen as big-endian
  16-bit words (a last odd byte padded with a zero byte), added in one's complement
  arithmetic (end-around carry). A checksum verifies when that sum is all ones.
\<close>

definition oc_add :: "nat \<Rightarrow> nat \<Rightarrow> nat" where
  "oc_add x y = (if x + y > 65535 then x + y - 65535 else x + y)"

fun be_words :: "u8 list \<Rightarrow> nat list" where
  "be_words [] = []"
| "be_words [a] = [256 * unat a]"
| "be_words (a # b # bs) = (256 * unat a + unat b) # be_words bs"

definition rfc1071_sum :: "u8 list \<Rightarrow> nat" where
  "rfc1071_sum bs = foldr oc_add (be_words bs) 0"

definition rfc1071_ok :: "u8 list \<Rightarrow> bool" where
  "rfc1071_ok bs = (rfc1071_sum bs = 65535)"

text \<open>The \<open>n\<close> bytes of the buffer from offset \<open>a\<close> on.\<close>

definition region :: "mem \<Rightarrow> nat \<Rightarrow> nat \<Rightarrow> u8 list" where
  "region m a n = map m [a..<a + n]"

definition wire_checksum_ok :: "mem \<Rightarrow> nat \<Rightarrow> bool" where
  "wire_checksum_ok m ip = rfc1071_ok (region m ip (ip_hlen m ip))"

section \<open>Global state of \<^verbatim>\<open>eth0.c\<close> and the driver boundary\<close>

text \<open>
  The globals of \<^verbatim>\<open>eth0.c\<close> that the protocol code reads or writes, the packet buffer
  \<^verbatim>\<open>data\<close> of \<^verbatim>\<open>main\<close>, the EEPROM words, and the frames handed to the controller so
  far. The byte arrays (\<^verbatim>\<open>macAddress[6]\<close>, \<^verbatim>\<open>ipAddress[4]\<close>, ...) are maps from the
  index to the byte; the code only uses indices below their length.
\<close>

record eth_state =
  data :: mem
  macAddress :: "nat \<Rightarrow> u8"
  ipAddress :: "nat \<Rightarrow> u8"
  tempIpAddress :: "nat \<Rightarrow> u8"
  ipSubnetMask :: "nat \<Rightarrow> u8"
  ipGwAddress :: "nat \<Rightarrow> u8"
  dnsAddress :: "nat \<Rightarrow> u8"
  serverIpAddress :: "nat \<Rightarrow> u8"
  serverMacAddress :: "nat \<Rightarrow> u8"
  dhcpEnabled :: bool
  currentIsn :: u32
  eeprom :: "nat \<Rightarrow> u32"
  sent :: "u8 list list"

text \<open>
  \<^verbatim>\<open>etherPutPacket(packet, size)\<close> streams \<^verbatim>\<open>packet[0..size-1]\<close> into the transmit buffer
  of the controller and requests transmission. The model records the frame; the register
  traffic and the returned transmit status (which no caller reads) are left out.
\<close>

definition etherPutPacket :: "nat \<Rightarrow> eth_state \<Rightarrow> eth_state" where
  "etherPutPacket sz st = st\<lparr>sent := sent st @ [map (data st) [0..<sz]]\<rparr>"

text \<open>\<open>n\<close> bytes of a frame from offset \<open>a\<close> on.\<close>

definition slice :: "'a list \<Rightarrow> nat \<Rightarrow> nat \<Rightarrow> 'a list" where
  "slice xs a n = take n (drop a xs)"

text \<open>Field offsets of the struct views, relative to the start of the view.\<close>

abbreviation (input) ETH_DEST :: nat where "ETH_DEST \<equiv> 0"
abbreviation (input) ETH_SRC :: nat where "ETH_SRC \<equiv> 6"
abbreviation (input) ETH_TYPE :: nat where "ETH_TYPE \<equiv> 12"
abbreviation (input) ETH_DATA :: nat where "ETH_DATA \<equiv> 14"

text \<open>
  \<^verbatim>\<open>ipFrame\<close>: revSize 0, typeOfService 1, length 2, id 4, flagsAndOffset 6, ttl 8,
  protocol 9, headerChecksum 10, sourceIp 12, destIp 16.
  \<^verbatim>\<open>arpFrame\<close>: hardwareType 0, protocolType 2, hardwareSize 4, protocolSize 5, op 6,
  sourceAddress 8, sourceIp 14, destAddress 18, destIp 24.
  \<^verbatim>\<open>icmpFrame\<close>: type 0, code 1, check 2, id 4, seq_no 6, data 8.
  \<^verbatim>\<open>udpFrame\<close>: sourcePort 0, destPort 2, length 4, check 6, data 8.
  \<^verbatim>\<open>tcpFrame\<close>: sourcePort 0, destPort 2, sequenceNumber 4, ackNumber 8, headerLength 12,
  windowSize 14, checksum 16, urgent 18, options and data 20.
  \<^verbatim>\<open>dhcpFrame\<close>: op 0, htype 1, hlen 2, hops 3, xid 4, secs 8, flags 10, ciaddr 12,
  yiaddr 16, siaddr 20, giaddr 24, chaddr 28, data 44, magicCookie 236, options 240.
  The IP header starts at offset 14 of the buffer (\<^verbatim>\<open>&ether->data\<close>), so does the ARP frame.
\<close>

text \<open>The protocol header behind the IP header: \<^verbatim>\<open>(uint8_t*) ip + ((ip->revSize & 0xF) * 4)\<close>.\<close>

definition l4_off :: "mem \<Rightarrow> nat" where
  "l4_off m = ETH_DATA + ip_hlen m ETH_DATA"

text \<open>The total length field of the IP header, in host order.\<close>

definition ip_total_length :: "mem \<Rightarrow> nat" where
  "ip_total_length m = unat (htons (rd16 m (ETH_DATA + 2)))"

subsection \<open>Loops over address bytes\<close>

text \<open>
  \<^verbatim>\<open>while (ok & (i < n)) { ok = (p[i] == ref[i]); i++; }\<close> with \<open>k\<close> the number of
  iterations still allowed by \<^verbatim>\<open>i < n\<close>.
\<close>

fun cmp_loop :: "mem \<Rightarrow> nat \<Rightarrow> (nat \<Rightarrow> u8) \<Rightarrow> nat \<Rightarrow> nat \<Rightarrow> bool \<Rightarrow> bool" where
  "cmp_loop m p ref i 0 ok = ok"
| "cmp_loop m p ref i (Suc k) ok =
     (if ok then cmp_loop m p ref (i + 1) k (m (p + i) = ref i) else ok)"

lemma cmp_loop_numeral:
  "cmp_loop m p ref i (numeral k) ok =
     (if ok then cmp_loop m p ref (i + 1) (pred_numeral k) (m (p + i) = ref i) else ok)"
  by (simp add: numeral_eq_Suc)

text \<open>
  \<^verbatim>\<open>for (i = 0; i < n; i++) { tmp = a[i]; a[i] = b[i]; b[i] = tmp; }\<close>, the swap of
  source and destination used by every reply builder.
\<close>

fun swap_loop :: "nat \<Rightarrow> nat \<Rightarrow> nat \<Rightarrow> nat \<Rightarrow> mem \<Rightarrow> mem" where
  "swap_loop a b i 0 m = m"
| "swap_loop a b i (Suc k) m =
     swap_loop a b (i + 1) k (m(a + i := m (b + i), b + i := m (a + i)))"

definition swap_ether_addresses :: "mem \<Rightarrow> mem" where
  "swap_ether_addresses m = swap_loop ETH_DEST ETH_SRC 0 HW_ADD_LENGTH m"

definition swap_ip_addresses :: "mem \<Rightarrow> mem" where
  "swap_ip_addresses m = swap_loop (ETH_DATA + 16) (ETH_DATA + 12) 0 IP_ADD_LENGTH m"

section \<open>ARP\<close>

text \<open>\<^verbatim>\<open>etherIsArpRequest\<close>: frame type, then target IP byte by byte, then the opcode.\<close>

definition etherIsArpRequest :: "eth_state \<Rightarrow> bool" where
  "etherIsArpRequest st =
     (let m = data st;
          ok = (rd16 m ETH_TYPE = htons 0x0806);
          ok = cmp_loop m (ETH_DATA + 24) (ipAddress st) 0 IP_ADD_LENGTH ok
      in if ok then rd16 m (ETH_DATA + 6) = htons 1 else ok)"

text \<open>
  The first loop of \<^verbatim>\<open>etherSendArpResponse\<close>:
  \<^verbatim>\<open>arp->destAddress[i] = arp->sourceAddress[i]; ether->destAddress[i] = ether->sourceAddress[i];
  ether->sourceAddress[i] = arp->sourceAddress[i] = macAddress[i];\<close>
\<close>

fun arp_hw_loop :: "(nat \<Rightarrow> u8) \<Rightarrow> nat \<Rightarrow> nat \<Rightarrow> mem \<Rightarrow> mem" where
  "arp_hw_loop mac i 0 m = m"
| "arp_hw_loop mac i (Suc k) m =
     arp_hw_loop mac (i + 1) k
       (let m1 = m(ETH_DATA + 18 + i := m (ETH_DATA + 8 + i));
            m2 = m1(ETH_DEST + i := m1 (ETH_SRC + i));
            m3 = m2(ETH_DATA + 8 + i := mac i)
        in m3(ETH_SRC + i := m3 (ETH_DATA + 8 + i)))"

definition etherSendArpResponse :: "eth_state \<Rightarrow> eth_state" where
  "etherSendArpResponse st =
     (let m = data st;
          m = wr16 m (ETH_DATA + 6) (htons 2);
          m = arp_hw_loop (macAddress st) 0 HW_ADD_LENGTH m;
          m = swap_loop (ETH_DATA + 24) (ETH_DATA + 14) 0 IP_ADD_LENGTH m
      in etherPutPacket 42 (st\<lparr>data := m\<rparr>))"

section \<open>IPv4 and ICMP echo\<close>

definition etherIsIp :: "eth_state \<Rightarrow> bool" where
  "etherIsIp st =
     (let m = data st;
          ok = (rd16 m ETH_TYPE = htons 0x0800)
      in if ok then ip_header_check m ETH_DATA = 0 else ok)"

definition etherIsIpUnicast :: "eth_state \<Rightarrow> bool" where
  "etherIsIpUnicast st = cmp_loop (data st) (ETH_DATA + 16) (ipAddress st) 0 IP_ADD_LENGTH True"

definition etherIsIpBroadcast :: "eth_state \<Rightarrow> bool" where
  "etherIsIpBroadcast st = cmp_loop (data st) (ETH_DATA + 16) (\<lambda>i. 255) 0 IP_ADD_LENGTH True"

text \<open>\<^verbatim>\<open>etherIsPingRequest\<close>: protocol 1 and ICMP type 8 (both operands are evaluated).\<close>

definition etherIsPingRequest :: "eth_state \<Rightarrow> bool" where
  "etherIsPingRequest st =
     (let m = data st in m (ETH_DATA + 9) = 0x01 \<and> m (l4_off m) = 8)"

text \<open>
  \<^verbatim>\<open>etherSendPingResponse\<close>. \<^verbatim>\<open>icmp_size\<close> is a \<^verbatim>\<open>uint16_t\<close>: the subtraction of 24 wraps.
  The frame length \<^verbatim>\<open>14 + ntohs(ip->length)\<close> is reduced to the \<^verbatim>\<open>uint16_t\<close> parameter of
  \<^verbatim>\<open>etherPutPacket\<close>.
\<close>

definition etherSendPingResponse :: "eth_state \<Rightarrow> eth_state" where
  "etherSendPingResponse st =
     (let m = data st;
          icmp = l4_off m;
          m = swap_ether_addresses m;
          m = swap_ip_addresses m;
          m = m(icmp := 0);
          s = etherSumWords m icmp 2 0;
          icmp_size = to_u16 (int (unat (htons (rd16 m (ETH_DATA + 2)))) - 24);
          s = etherSumWords m (icmp + 4) icmp_size s;
          m = wr16 m (icmp + 2) (getEtherChecksum s)
      in etherPutPacket (to_u16 (14 + int (unat (htons (rd16 m (ETH_DATA + 2))))))
           (st\<lparr>data := m\<rparr>))"

section \<open>DHCP options\<close>

text \<open>
  \<^verbatim>\<open>putOption(options, size, number, count, ...)\<close>: \<open>base\<close> is the offset of \<^verbatim>\<open>options\<close> in
  the buffer, the cursor \<^verbatim>\<open>size\<close> is a \<^verbatim>\<open>uint8_t\<close> and wraps, \<open>args i\<close> is the \<open>i\<close>-th
  variadic argument. The loop runs for \<open>i = 0, ..., count - 1\<close>.
\<close>

fun putOption_loop :: "nat \<Rightarrow> (nat \<Rightarrow> u8) \<Rightarrow> nat \<Rightarrow> nat \<Rightarrow> mem \<times> u8 \<Rightarrow> mem \<times> u8" where
  "putOption_loop base args i 0 (m, sz) = (m, sz)"
| "putOption_loop base args i (Suc k) (m, sz) =
     putOption_loop base args (i + 1) k (m(base + unat sz := args i), sz + 1)"

definition putOption :: "mem \<Rightarrow> nat \<Rightarrow> u8 \<Rightarrow> u8 \<Rightarrow> u8 \<Rightarrow> (nat \<Rightarrow> u8) \<Rightarrow> mem \<times> u8" where
  "putOption m base sz number count args =
     (let m = m(base + unat sz := number); sz = sz + 1;
          m = m(base + unat sz := count); sz = sz + 1
      in putOption_loop base args 0 (unat count) (m, sz))"

text \<open>
  \<^verbatim>\<open>getOption(options, number, size)\<close>: the cursor \<^verbatim>\<open>i\<close> is a \<^verbatim>\<open>uint8_t\<close>, so
  \<^verbatim>\<open>i += options[i + 1] + 2\<close> wraps and the loop need not terminate; the result is \<open>None\<close>
  when it does not. The index expressions \<^verbatim>\<open>i + 1\<close> and \<^verbatim>\<open>i + 2\<close> are computed as \<^verbatim>\<open>int\<close>.
\<close>

datatype ptr = NULL | Ptr nat

partial_function (option) getOption_loop :: "mem \<Rightarrow> nat \<Rightarrow> u8 \<Rightarrow> u8 \<Rightarrow> u8 \<Rightarrow> ptr option" where
  "getOption_loop m base number sz i =
     (if i < sz then
        (if m (base + unat i) = number then Some (Ptr (base + unat i + 2))
         else getOption_loop m base number sz (i + (m (base + unat i + 1) + 2)))
      else Some NULL)"

definition getOption :: "mem \<Rightarrow> nat \<Rightarrow> u8 \<Rightarrow> u8 \<Rightarrow> ptr option" where
  "getOption m base number sz = getOption_loop m base number sz 0"

subsection \<open>Option lists\<close>

text \<open>
  A well-formed options region is what a sequence of \<^verbatim>\<open>putOption\<close> calls writes, starting
  with the cursor at 0: each option is a number and its values, written with \<^verbatim>\<open>count\<close> the
  number of values.
\<close>

fun put_options :: "(u8 \<times> u8 list) list \<Rightarrow> nat \<Rightarrow> mem \<times> u8 \<Rightarrow> mem \<times> u8" where
  "put_options [] base (m, sz) = (m, sz)"
| "put_options ((number, vs) # ops) base (m, sz) =
     put_options ops base (putOption m base sz number (of_nat (length vs)) (\<lambda>i. vs ! i))"

fun region_size :: "(u8 \<times> u8 list) list \<Rightarrow> nat" where
  "region_size [] = 0"
| "region_size ((number, vs) # ops) = 2 + length vs + region_size ops"

text \<open>The offset in the region of the first option with the given number.\<close>

fun option_offset :: "(u8 \<times> u8 list) list \<Rightarrow> u8 \<Rightarrow> nat option" where
  "option_offset [] n = None"
| "option_offset ((number, vs) # ops) n =
     (if number = n then Some 0
      else map_option (\<lambda>off. 2 + length vs + off) (option_offset ops n))"

section \<open>UDP\<close>

text \<open>
  \<^verbatim>\<open>etherIsUdp\<close>: protocol 17, then the sum over the pseudo-header (source and destination
  address, protocol, UDP length) and over \<^verbatim>\<open>ntohs(udp->length)\<close> bytes from the UDP header on
  must fold to zero. There is no test of the checksum field against zero.
\<close>

definition etherIsUdp :: "eth_state \<Rightarrow> bool" where
  "etherIsUdp st =
     (let m = data st;
          udp = l4_off m;
          ok = (m (ETH_DATA + 9) = 0x11)
      in if ok then
           (let s = etherSumWords m (ETH_DATA + 12) 8 0;
                tmp16 = (ucast (m (ETH_DATA + 9)) :: u16);
                s = s + push_bit 8 (ucast (tmp16 AND 0xff));
                s = etherSumWords m (udp + 4) 2 s;
                s = etherSumWords m udp (unat (htons (rd16 m (udp + 4)))) s
            in getEtherChecksum s = 0)
         else ok)"

text \<open>
  The RFC 768 side: the UDP checksum verifies when the one's complement sum over the
  pseudo-header (source address, destination address, zero, protocol, UDP length) and the
  UDP datagram (header and data, as long as the UDP length field says) is all ones.
\<close>

definition udp_length :: "mem \<Rightarrow> nat" where
  "udp_length m = unat (htons (rd16 m (l4_off m + 4)))"

definition udp_pseudo_header :: "mem \<Rightarrow> u8 list" where
  "udp_pseudo_header m =
     region m (ETH_DATA + 12) 8 @ [0, m (ETH_DATA + 9)] @ region m (l4_off m + 4) 2"

definition udp_checksum_verifies :: "mem \<Rightarrow> bool" where
  "udp_checksum_verifies m =
     rfc1071_ok (udp_pseudo_header m @ region m (l4_off m) (udp_length m))"

section \<open>TCP\<close>

text \<open>
  \<^verbatim>\<open>currentIsn\<close> is the field of the state. The 16-bit field \<^verbatim>\<open>headerLength\<close> holds the data
  offset in its high nibble and the flags in its low byte, once converted to host order.
\<close>

definition tcp_hl :: "mem \<Rightarrow> u16" where
  "tcp_hl m = htons (rd16 m (l4_off m + 12))"

definition tcp_seq :: "mem \<Rightarrow> u32" where
  "tcp_seq m = htols (rd32 m (l4_off m + 4))"

definition tcp_ack :: "mem \<Rightarrow> u32" where
  "tcp_ack m = htols (rd32 m (l4_off m + 8))"

text \<open>\<^verbatim>\<open>(x >> n) & 1\<close> converted to \<^verbatim>\<open>bool\<close>.\<close>

definition flag :: "u16 \<Rightarrow> nat \<Rightarrow> bool" where
  "flag x n = (drop_bit n x AND 1 \<noteq> 0)"

definition etherIsTcp :: "eth_state \<Rightarrow> bool" where
  "etherIsTcp st =
     (let m = data st;
          tcp = l4_off m;
          ok = (m (ETH_DATA + 9) = 6)
      in if ok then
           (let s = etherSumWords m (ETH_DATA + 12) 8 0;
                tmp16 = (ucast (m (ETH_DATA + 9)) :: u16);
                s = s + push_bit 8 (ucast (tmp16 AND 0xff));
                tmp16 = htons (rd16 m (ETH_DATA + 2)) - 20;
                s = s + push_bit 8 (ucast (tmp16 AND 0xff));
                s = etherSumWords m tcp (unat tmp16) s
            in getEtherChecksum s = 0)
         else ok)"

definition etherIsTcpSYN :: "eth_state \<Rightarrow> bool" where
  "etherIsTcpSYN st = flag (tcp_hl (data st)) 1"

definition etherIsTcpAck :: "eth_state \<Rightarrow> bool" where
  "etherIsTcpAck st =
     (let ok = flag (tcp_hl (data st)) 4;
          tmp32 = tcp_ack (data st)
      in ok \<and> tmp32 = currentIsn st)"

definition etherIsTelnetData :: "eth_state \<Rightarrow> bool" where
  "etherIsTelnetData st =
     (let tmp16 = tcp_hl (data st);
          ok = (flag tmp16 3 \<and> flag tmp16 4);
          tmp32 = tcp_ack (data st)
      in ok \<and> tmp32 = currentIsn st)"

text \<open>
  \<^verbatim>\<open>(htons(hl) >> 4) & 1 && htons(hl) & 1\<close>: in C \<^verbatim>\<open>&\<close> binds tighter than \<^verbatim>\<open>&&\<close>, so this is
  the ACK bit and the FIN bit.
\<close>

definition etherIsTcpFINACK :: "eth_state \<Rightarrow> bool" where
  "etherIsTcpFINACK st =
     (let ok = (flag (tcp_hl (data st)) 4 \<and> flag (tcp_hl (data st)) 0);
          tmp32 = tcp_ack (data st)
      in ok \<and> tmp32 = currentIsn st)"

text \<open>
  The TCP checksum as the three builders compute it: checksum field zeroed, sum over the
  addresses, protocol, \<^verbatim>\<open>len & 0xff\<close> as the length of the pseudo-header, then \<open>len\<close>
  bytes from the TCP header on, for \<^verbatim>\<open>etherSendTcpSynAck\<close> and \<^verbatim>\<open>etherSendAckFinAck\<close>
  with \<open>len = tcpSize * 4\<close>.
\<close>

definition tcp_calc_checksum :: "nat \<Rightarrow> nat \<Rightarrow> mem \<Rightarrow> mem" where
  "tcp_calc_checksum tcp tcpSize m =
     (let m = wr16 m (tcp + 16) 0;
          s = etherSumWords m (ETH_DATA + 12) 8 0;
          tmp16 = (ucast (m (ETH_DATA + 9)) :: u16);
          s = s + push_bit 8 (ucast (tmp16 AND 0xff));
          s = s + push_bit 8 (of_nat ((tcpSize * 4) mod 256));
          s = etherSumWords m tcp (tcpSize * 4) s
      in wr16 m (tcp + 16) (getEtherChecksum s))"

text \<open>
  The common start of \<^verbatim>\<open>etherSendTcpSynAck\<close> and \<^verbatim>\<open>etherSendAckFinAck\<close>: swap the
  addresses and the ports, acknowledge the peer's sequence number plus one, send
  \<^verbatim>\<open>currentIsn\<close> as sequence number and increment it.
\<close>

definition tcp_reply_header :: "eth_state \<Rightarrow> eth_state" where
  "tcp_reply_header st =
     (let m = data st;
          tcp = l4_off m;
          m = swap_ether_addresses m;
          m = swap_ip_addresses m;
          tmp16 = rd16 m (tcp + 2);
          m = wr16 m (tcp + 2) (rd16 m tcp);
          m = wr16 m tcp tmp16;
          m = wr32 m (tcp + 8) (htols (htols (rd32 m (tcp + 4)) + 1));
          m = wr32 m (tcp + 4) (htols (currentIsn st))
      in st\<lparr>data := m, currentIsn := currentIsn st + 1\<rparr>)"

definition etherSendTcpSynAck :: "eth_state \<Rightarrow> eth_state" where
  "etherSendTcpSynAck st =
     (let tcp = l4_off (data st);
          st = tcp_reply_header st;
          m = data st;
          hl = htons (rd16 m (tcp + 12));
          hl = hl OR push_bit 4 1;
          tcpSize = unat (ucast (drop_bit 12 hl) :: u8);
          m = wr16 m (tcp + 12) (htons hl);
          m = etherCalcIpChecksum m ETH_DATA;
          m = tcp_calc_checksum tcp tcpSize m
      in etherPutPacket (to_u16 (14 + int (ip_hlen m ETH_DATA) + int (tcpSize * 4)))
           (st\<lparr>data := m\<rparr>))"

text \<open>
  \<^verbatim>\<open>etherSendAckFinAck\<close>: the first segment with the ACK flag set and the FIN flag cleared
  by \<^verbatim>\<open>hl >> 1 << 1\<close>; then the same buffer with the FIN flag set and the TCP checksum
  computed again.
\<close>

definition etherSendAckFinAck :: "eth_state \<Rightarrow> eth_state" where
  "etherSendAckFinAck st =
     (let tcp = l4_off (data st);
          st = tcp_reply_header st;
          m = data st;
          hl = htons (rd16 m (tcp + 12));
          hl = hl OR push_bit 4 1;
          hl = drop_bit 1 hl;
          hl = push_bit 1 hl;
          tcpSize = unat (ucast (drop_bit 12 hl) :: u8);
          m = wr16 m (tcp + 12) (htons hl);
          m = etherCalcIpChecksum m ETH_DATA;
          m = tcp_calc_checksum tcp tcpSize m;
          st = etherPutPacket (to_u16 (14 + int (ip_hlen m ETH_DATA) + int (tcpSize * 4)))
                 (st\<lparr>data := m\<rparr>);
          hl = htons (rd16 m (tcp + 12));
          hl = hl OR 1;
          m = wr16 m (tcp + 12) (htons hl);
          m = tcp_calc_checksum tcp tcpSize m
      in etherPutPacket (to_u16 (14 + int (ip_hlen m ETH_DATA) + int (tcpSize * 4)))
           (st\<lparr>data := m\<rparr>))"

text \<open>
  \<^verbatim>\<open>etherSendTelnetData(packet, telnetData, telnetSize)\<close>: \<open>payload i\<close> is
  \<^verbatim>\<open>telnetData[i]\<close>, \<^verbatim>\<open>telnetSize\<close> a \<^verbatim>\<open>uint8_t\<close>. The sequence counter advances by the
  payload size; the acknowledgement number is again the peer's sequence number plus one.
\<close>

fun copy_loop :: "nat \<Rightarrow> (nat \<Rightarrow> u8) \<Rightarrow> nat \<Rightarrow> nat \<Rightarrow> mem \<Rightarrow> mem" where
  "copy_loop dst src i 0 m = m"
| "copy_loop dst src i (Suc k) m = copy_loop dst src (i + 1) k (m(dst + i := src i))"

definition etherSendTelnetData :: "(nat \<Rightarrow> u8) \<Rightarrow> u8 \<Rightarrow> eth_state \<Rightarrow> eth_state" where
  "etherSendTelnetData payload telnetSize st =
     (let m = data st;
          tcp = l4_off m;
          m = swap_ether_addresses m;
          m = swap_ip_addresses m;
          tmp16 = rd16 m (tcp + 2);
          m = wr16 m (tcp + 2) (rd16 m tcp);
          m = wr16 m tcp tmp16;
          m = wr32 m (tcp + 8) (htols (htols (rd32 m (tcp + 4)) + 1));
          m = wr32 m (tcp + 4) (htols (currentIsn st));
          isn = currentIsn st + ucast telnetSize;
          hl = htons (rd16 m (tcp + 12));
          tcpSize = unat (ucast (drop_bit 12 hl) :: u8);
          m = wr16 m (tcp + 12) (htons hl);
          m = copy_loop (tcp + 20) payload 0 (unat telnetSize) m;
          m = wr16 m (ETH_DATA + 2) (htons (of_nat (40 + unat telnetSize)));
          m = etherCalcIpChecksum m ETH_DATA;
          m = wr16 m (tcp + 16) 0;
          s = etherSumWords m (ETH_DATA + 12) 8 0;
          tmp16 = (ucast (m (ETH_DATA + 9)) :: u16);
          s = s + push_bit 8 (ucast (tmp16 AND 0xff));
          s = s + push_bit 8 (of_nat ((tcpSize * 4 + unat telnetSize) mod 256));
          s = etherSumWords m tcp (tcpSize * 4) s;
          s = etherSumWords m (tcp + 20) (unat telnetSize) s;
          m = wr16 m (tcp + 16) (getEtherChecksum s)
      in etherPutPacket
           (to_u16 (14 + int (ip_hlen m ETH_DATA) + int (tcpSize * 4) + int (unat telnetSize)))
           (st\<lparr>data := m, currentIsn := isn\<rparr>))"

subsection \<open>The TCP branch of the main loop\<close>

text \<open>The TCP states of \<^verbatim>\<open>main.c\<close> (\<^verbatim>\<open>#define LISTEN 0\<close> ... \<^verbatim>\<open>#define CLOSED 6\<close>).\<close>

datatype tcp_state = LISTEN | SYN_RECEIVED | ESTABLISHED | FINWAIT_1 | FINWAIT_2 | TIME_WAIT | CLOSED

text \<open>
  Lines 471 to 497 of \<^verbatim>\<open>main.c\<close>, reached for a frame that passed \<^verbatim>\<open>etherIsIp\<close> and
  \<^verbatim>\<open>etherIsIpUnicast\<close>. The LED blink of the FIN branch is left out. The payload of the
  Telnet reply is the string "Hello", 5 bytes.
\<close>

definition hello :: "nat \<Rightarrow> u8" where
  "hello i = [0x48, 0x65, 0x6C, 0x6C, 0x6F, 0] ! i"

definition main_tcp :: "eth_state \<times> tcp_state \<Rightarrow> eth_state \<times> tcp_state" where
  "main_tcp = (\<lambda>(st, tcp_st).
     if etherIsTcp st then
       (if etherIsTcpSYN st then (etherSendTcpSynAck st, SYN_RECEIVED)
        else if etherIsTcpAck st \<and> tcp_st = SYN_RECEIVED then (st, ESTABLISHED)
        else if etherIsTelnetData st then (etherSendTelnetData hello 5 st, tcp_st)
        else if etherIsTcpFINACK st then (etherSendAckFinAck st, FINWAIT_1)
        else if etherIsTcpAck st \<and> tcp_st = SYN_RECEIVED then (st, CLOSED)
        else (st, tcp_st))
     else (st, tcp_st))"

section \<open>Console line input (\<^verbatim>\<open>uart0.c\<close>)\<close>

text \<open>
  \<^verbatim>\<open>getsUart0(USER_DATA* data)\<close>. The declaration of \<^verbatim>\<open>USER_DATA\<close> and the constant
  \<^verbatim>\<open>MAX_CHARS\<close> live in \<^verbatim>\<open>uart0.h\<close>, which is not among the sources: \<^verbatim>\<open>MAX_CHARS\<close> is
  the parameter \<open>maxc\<close>, and the unsigned counter \<^verbatim>\<open>charCount\<close> wraps at \<open>cmod\<close> (256 for
  a \<^verbatim>\<open>uint8_t\<close>). The characters delivered by \<^verbatim>\<open>getcUart0\<close> are the input list; when it is
  used up the call is still waiting in \<^verbatim>\<open>getcUart0\<close>. The echo written to the UART is left
  out. Every store into \<^verbatim>\<open>data->buffer\<close> is performed on the buffer map and its index is
  appended to \<open>stores\<close>, so that the indices written can be inspected: the C code performs
  no bounds check of its own beyond the test against \<^verbatim>\<open>MAX_CHARS\<close>.
\<close>

datatype gets_outcome = Returned | LoopExit | Waiting

record gets_state =
  buffer :: "nat \<Rightarrow> u8"
  charCount :: nat
  stores :: "nat list"

definition store_char :: "u8 \<Rightarrow> gets_state \<Rightarrow> gets_state" where
  "store_char c d = d\<lparr>buffer := (buffer d)(charCount d := c), stores := stores d @ [charCount d]\<rparr>"

definition is_alnum :: "u8 \<Rightarrow> bool" where
  "is_alnum c = ((c \<ge> 0x61 \<and> c \<le> 0x7A) \<or> (c \<ge> 0x41 \<and> c \<le> 0x5A) \<or> (c \<ge> 0x30 \<and> c \<le> 0x39))"

fun getsUart0_loop :: "nat \<Rightarrow> nat \<Rightarrow> u8 list \<Rightarrow> gets_state \<Rightarrow> gets_outcome \<times> gets_state" where
  "getsUart0_loop maxc cmod [] d = (Waiting, d)"
| "getsUart0_loop maxc cmod (c # cs) d =
     (if c = 0 then (LoopExit, d)
      else if c = 127 then
        (if charCount d > 0
         then getsUart0_loop maxc cmod cs (d\<lparr>charCount := charCount d - 1\<rparr>)
         else getsUart0_loop maxc cmod cs d)
      else if c = 10 \<or> c = 13 then (Returned, store_char 0 d)
      else if is_alnum c then
        (let c = (if c \<ge> 0x41 \<and> c \<le> 0x5A then c + 32 else c);
             d = store_char c d;
             d = d\<lparr>charCount := (charCount d + 1) mod cmod\<rparr>
         in if charCount d = maxc then (Returned, store_char 0 d)
            else getsUart0_loop maxc cmod cs d)
      else
        (let d = store_char 0 d;
             d = d\<lparr>charCount := (charCount d + 1) mod cmod\<rparr>
         in getsUart0_loop maxc cmod cs d))"

definition getsUart0 :: "nat \<Rightarrow> nat \<Rightarrow> u8 list \<Rightarrow> gets_state \<Rightarrow> gets_outcome \<times> gets_state" where
  "getsUart0 maxc cmod input d = getsUart0_loop maxc cmod input (d\<lparr>charCount := 0, stores := []\<rparr>)"

section \<open>Example frames\<close>

text \<open>A buffer whose first bytes are the given frame; the rest of the buffer is zero.\<close>

definition mem_of :: "u8 list \<Rightarrow> mem" where
  "mem_of bs = (\<lambda>i. if i < length bs then bs ! i else 0)"

lemma mem_of_nth: "mem_of bs i = (if i < length bs then bs ! i else 0)"
  by (simp add: mem_of_def)

text \<open>
  ICMP echo request from 192.168.1.1 (00:11:22:33:44:55) to 192.168.1.199
  (02:03:04:05:06:88), IP id 0xBEEF, ICMP id 1, sequence 7, payload "abcdef".
\<close>

definition ping_request :: "u8 list" where
  "ping_request =
    [2, 3, 4, 5, 6, 136, 0, 17, 34, 51, 68, 85, 8, 0,
     69, 0, 0, 34, 190, 239, 0, 0, 64, 1, 55, 211, 192, 168, 1, 1, 192, 168, 1, 199,
     8, 0, 205, 202, 0, 1, 0, 7, 97, 98, 99, 100, 101, 102]"

text \<open>
  The host of the specification's scenarios: MAC 02:03:04:05:06:88 (set by \<^verbatim>\<open>main\<close>),
  IP 192.168.1.199, with the given frame received into the buffer.
\<close>

definition host_state :: "u8 list \<Rightarrow> eth_state" where
  "host_state frame =
    \<lparr>data = mem_of frame,
     macAddress = mem_of [2, 3, 4, 5, 6, 136],
     ipAddress = mem_of [192, 168, 1, 199],
     tempIpAddress = mem_of [0, 0, 0, 0],
     ipSubnetMask = mem_of [255, 255, 255, 0],
     ipGwAddress = mem_of [0, 0, 0, 0],
     dnsAddress = mem_of [0, 0, 0, 0],
     serverIpAddress = mem_of [0, 0, 0, 0],
     serverMacAddress = mem_of [0, 0, 0, 0, 0, 0],
     dhcpEnabled = False,
     currentIsn = 0,
     eeprom = (\<lambda>a. 0),
     sent = []\<rparr>"

text \<open>ARP who-has 192.168.1.199 from 00:11:22:33:44:55 at 192.168.1.1.\<close>

definition arp_request :: "u8 list" where
  "arp_request =
    [255, 255, 255, 255, 255, 255, 0, 17, 34, 51, 68, 85, 8, 6,
     0, 1, 8, 0, 6, 4, 0, 1, 0, 17, 34, 51, 68, 85, 192, 168, 1, 1,
     0, 0, 0, 0, 0, 0, 192, 168, 1, 199]"

text \<open>Message type 3, a parameter request list, and a second option 53.\<close>

definition example_options :: "(u8 \<times> u8 list) list" where
  "example_options = [(53, [3]), (55, [1, 2, 3, 6, 51]), (53, [1])]"

text \<open>
  UDP datagram from 192.168.1.1 port 5000 to 192.168.1.199 port 1024 with payload "on":
  once with the checksum field zero ("no checksum" in RFC 768), once with the checksum.
\<close>

definition udp_zero_checksum :: "u8 list" where
  "udp_zero_checksum =
    [2, 3, 4, 5, 6, 136, 0, 17, 34, 51, 68, 85, 8, 0,
     69, 0, 0, 30, 190, 239, 0, 0, 64, 17, 55, 199, 192, 168, 1, 1, 192, 168, 1, 199,
     19, 136, 4, 0, 0, 10, 0, 0, 111, 110]"

definition udp_on :: "u8 list" where
  "udp_on =
    [2, 3, 4, 5, 6, 136, 0, 17, 34, 51, 68, 85, 8, 0,
     69, 0, 0, 30, 190, 239, 0, 0, 64, 17, 55, 199, 192, 168, 1, 1, 192, 168, 1, 199,
     19, 136, 4, 0, 0, 10, 244, 202, 111, 110]"

section \<open>Properties of the checksum engine\<close>

subsection \<open>The accumulator as a natural number\<close>

text \<open>
  \<open>wsum m a n ph\<close> is what \<^verbatim>\<open>etherSumWords\<close> adds to the accumulator for \<open>n\<close> bytes at
  offset \<open>a\<close>, as an unbounded number; the accumulator itself wraps at \<open>2^32\<close>.
\<close>

fun wsum :: "mem \<Rightarrow> nat \<Rightarrow> nat \<Rightarrow> bool \<Rightarrow> nat" where
  "wsum m a 0 ph = 0"
| "wsum m a (Suc n) ph = (if ph then 256 * unat (m a) else unat (m a)) + wsum m (a + 1) n (\<not> ph)"

lemma unat_u32_lt: "unat (s::u32) < 4294967296"
proof -
  have "unat s < 2 ^ LENGTH(32)" by (rule unsigned_less)
  then show ?thesis by simp
qed

lemma unat_u16_lt: "unat (s::u16) < 65536"
proof -
  have "unat s < 2 ^ LENGTH(16)" by (rule unsigned_less)
  then show ?thesis by simp
qed

lemma unat_u8_lt: "unat (b::u8) < 256"
proof -
  have "unat b < 2 ^ LENGTH(8)" by (rule unsigned_less)
  then show ?thesis by simp
qed

lemma unat_ucast_u8_u32: "unat (ucast (b::u8) :: u32) = unat b"
  using unat_u8_lt [of b] by (simp add: unsigned_ucast_eq take_bit_nat_eq_self)

lemma unat_push8_u8_u32: "unat (push_bit 8 (ucast (b::u8) :: u32)) = 256 * unat b"
proof -
  have "unat b * 256 < 4294967296" using unat_u8_lt [of b] by simp
  then show ?thesis
    by (simp add: push_bit_eq_mult unat_word_ariths unat_ucast_u8_u32)
qed

lemma unat_sumWords_loop:
  "unat (sumWords_loop m a n ph s) = (unat s + wsum m a n ph) mod 4294967296"
proof (induction n arbitrary: a ph s)
  case 0
  then show ?case using unat_u32_lt [of s] by simp
next
  case (Suc n)
  let ?x = "if ph then 256 * unat (m a) else unat (m a)"
  let ?s' = "if ph then s + push_bit 8 (ucast (m a)) else s + ucast (m a)"
  have a: "unat ?s' = (unat s + ?x) mod 4294967296"
    by (simp add: unat_word_ariths unat_push8_u8_u32 unat_ucast_u8_u32)
  have "unat (sumWords_loop m a (Suc n) ph s) = (unat ?s' + wsum m (a + 1) n (\<not> ph)) mod 4294967296"
    using Suc.IH [of "a + 1" "\<not> ph" ?s'] by simp
  also have "\<dots> = ((unat s + ?x) + wsum m (a + 1) n (\<not> ph)) mod 4294967296"
    unfolding a by (rule mod_add_left_eq)
  also have "\<dots> = (unat s + wsum m a (Suc n) ph) mod 4294967296"
    by (simp add: add.assoc)
  finally show ?case .
qed

lemma wsum_bound: "wsum m a n ph \<le> n * 65280"
proof (induction n arbitrary: a ph)
  case 0 then show ?case by simp
next
  case (Suc n)
  have "wsum m (a + 1) n (\<not> ph) \<le> n * 65280" by (rule Suc.IH)
  moreover have "unat (m a) < 256" by (rule unat_u8_lt)
  ultimately show ?case by (cases ph) simp_all
qed

lemma wsum_append:
  "wsum m a (n1 + n2) ph = wsum m a n1 ph + wsum m (a + n1) n2 (if even n1 then ph else \<not> ph)"
  by (induction n1 arbitrary: a ph) auto

lemma wsum_cong:
  "(\<And>i. a \<le> i \<Longrightarrow> i < a + n \<Longrightarrow> m i = m' i) \<Longrightarrow> wsum m a n ph = wsum m' a n ph"
  by (induction n arbitrary: a ph) auto

lemma mod_65535_step: "(n::nat) = 65535 * q + r \<Longrightarrow> r mod 65535 = n mod 65535"
  by simp

lemma fold_carries_props:
  "unat (fold_carries s) < 65536 \<and> unat (fold_carries s) mod 65535 = unat s mod 65535
     \<and> (unat (fold_carries s) = 0 \<longleftrightarrow> unat s = 0)"
proof (induction s rule: fold_carries.induct)
  case (1 s)
  show ?case
  proof (cases "drop_bit 16 s > 0")
    case True
    let ?s' = "(s AND 0xFFFF) + drop_bit 16 s"
    have d: "unat s div 65536 > 0"
      using True unat_drop16 [of s] by (simp add: word_less_nat_alt)
    have e: "unat s = 65536 * (unat s div 65536) + unat s mod 65536" by simp
    have f: "unat ?s' = unat s mod 65536 + unat s div 65536" by (rule unat_fold_step)
    have "unat s = 65535 * (unat s div 65536) + unat ?s'" using e f by linarith
    then have g: "unat ?s' mod 65535 = unat s mod 65535" by (rule mod_65535_step)
    have h: "unat ?s' \<noteq> 0 \<and> unat s \<noteq> 0" using d f by linarith
    have fc: "fold_carries s = fold_carries ?s'" using True by (subst fold_carries.simps) simp
    have ih: "unat (fold_carries ?s') < 65536 \<and> unat (fold_carries ?s') mod 65535 = unat ?s' mod 65535
     \<and> (unat (fold_carries ?s') = 0 \<longleftrightarrow> unat ?s' = 0)" by (rule "1.IH" [OF True])
    show ?thesis unfolding fc using ih g h by simp
  next
    case False
    then have "drop_bit 16 s = 0" by (simp add: word_greater_zero_iff)
    then have "unat s div 65536 = 0" using unat_drop16 [of s] by simp
    then have lt: "unat s < 65536" by (simp add: div_eq_0_iff)
    have "fold_carries s = s" using False by (subst fold_carries.simps) simp
    then show ?thesis using lt by simp
  qed
qed

lemma unat_getEtherChecksum: "unat (getEtherChecksum s) = 65535 - unat (fold_carries s)"
proof -
  let ?f = "fold_carries s"
  have lt: "unat ?f < 65536" using fold_carries_props [of s] by simp
  let ?w = "ucast (?f AND 0xFFFF) :: u16"
  have w: "unat ?w = unat ?f"
    using lt by (simp add: unsigned_ucast_eq unat_and_ffff take_bit_nat_eq_self)
  have "NOT ?w = 65535 - ?w" by (simp add: not_eq_complement)
  moreover have "unat (65535 - ?w) = unat (65535 :: u16) - unat ?w"
    by (rule unat_sub) (simp add: word_le_nat_alt w, use lt in simp)
  ultimately show ?thesis by (simp add: getEtherChecksum_def w)
qed

lemma getEtherChecksum_zero_iff:
  "getEtherChecksum s = 0 \<longleftrightarrow> unat s \<noteq> 0 \<and> unat s mod 65535 = 0"
proof -
  let ?f = "unat (fold_carries s)"
  have p: "?f < 65536" "?f mod 65535 = unat s mod 65535" "?f = 0 \<longleftrightarrow> unat s = 0"
    using fold_carries_props [of s] by simp_all
  have "getEtherChecksum s = 0 \<longleftrightarrow> unat (getEtherChecksum s) = 0"
    by (simp add: unat_eq_0)
  also have "\<dots> \<longleftrightarrow> ?f = 65535" using p(1) unfolding unat_getEtherChecksum by linarith
  also have "\<dots> \<longleftrightarrow> ?f \<noteq> 0 \<and> ?f mod 65535 = 0"
  proof
    assume "?f = 65535" then show "?f \<noteq> 0 \<and> ?f mod 65535 = 0" by simp
  next
    assume a: "?f \<noteq> 0 \<and> ?f mod 65535 = 0"
    then obtain k where k: "?f = 65535 * k" by (auto simp: mod_eq_0_iff_dvd)
    with a p(1) have "k = 1" by (cases k; cases "k - 1") auto
    with k show "?f = 65535" by simp
  qed
  finally show ?thesis using p by simp
qed

lemma ip_hlen_le: "ip_hlen m ip \<le> 60"
proof -
  have "unat (m ip AND 0xF) \<le> unat (0xF :: u8)"
    by (rule word_and_le1 [THEN word_le_nat_alt [THEN iffD1]])
  then show ?thesis by (simp add: ip_hlen_def)
qed

lemma unat_etherSumWords_small:
  assumes "n \<le> 65535"
  shows "unat (etherSumWords m a n 0) = wsum m a n False"
proof -
  have "wsum m a n False \<le> n * 65280" by (rule wsum_bound)
  also have "\<dots> \<le> 65535 * 65280" using assms by simp
  finally have "wsum m a n False < 4294967296" by simp
  then show ?thesis by (simp add: etherSumWords_def unat_sumWords_loop)
qed

lemma ip_header_check_zero_iff:
  "ip_header_check m ip = 0 \<longleftrightarrow>
     wsum m ip (ip_hlen m ip) False \<noteq> 0 \<and> wsum m ip (ip_hlen m ip) False mod 65535 = 0"
proof -
  have "ip_hlen m ip \<le> 65535" using ip_hlen_le [of m ip] by simp
  then show ?thesis
    by (simp add: ip_header_check_def getEtherChecksum_zero_iff unat_etherSumWords_small)
qed

subsection \<open>The accumulator and the RFC 1071 sum\<close>

text \<open>
  What \<^verbatim>\<open>etherSumWords\<close> adds for a list of bytes; the big-endian word sum without carries;
  the sums of the bytes at even and at odd positions.
\<close>

fun le_sum :: "u8 list \<Rightarrow> bool \<Rightarrow> nat" where
  "le_sum [] ph = 0"
| "le_sum (b # bs) ph = (if ph then 256 * unat b else unat b) + le_sum bs (\<not> ph)"

definition be_sum :: "u8 list \<Rightarrow> nat" where
  "be_sum bs = sum_list (be_words bs)"

fun even_sum :: "u8 list \<Rightarrow> nat" where
  "even_sum [] = 0"
| "even_sum [a] = unat a"
| "even_sum (a # b # bs) = unat a + even_sum bs"

fun odd_sum :: "u8 list \<Rightarrow> nat" where
  "odd_sum [] = 0"
| "odd_sum [a] = 0"
| "odd_sum (a # b # bs) = unat b + odd_sum bs"

lemma region_Suc: "region m a (Suc n) = m a # region m (a + 1) n"
  by (simp add: region_def upt_conv_Cons del: upt_Suc)

lemma region_0: "region m a 0 = []"
  by (simp add: region_def)

lemma length_region: "length (region m a n) = n"
  by (simp add: region_def)

lemma wsum_region: "wsum m a n ph = le_sum (region m a n) ph"
  by (induction n arbitrary: a ph) (simp_all add: region_0 region_Suc)

lemma le_sum_append:
  "le_sum (xs @ ys) ph = le_sum xs ph + le_sum ys (if even (length xs) then ph else \<not> ph)"
  by (induction xs arbitrary: ph) auto

lemma be_sum_le_sum: "256 * be_sum bs = le_sum bs False + 65535 * even_sum bs"
  by (induction bs rule: be_words.induct) (simp_all add: be_sum_def)

lemma le_sum_be_sum: "256 * le_sum bs False = be_sum bs + 65535 * odd_sum bs"
  by (induction bs rule: be_words.induct) (simp_all add: be_sum_def)

lemma le_sum_zero_iff: "le_sum bs False = 0 \<longleftrightarrow> be_sum bs = 0"
  using be_sum_le_sum [of bs] le_sum_be_sum [of bs] by (cases "le_sum bs False = 0") auto

lemma oc_add_props:
  assumes "x \<le> 65535" "y \<le> 65535"
  shows "oc_add x y \<le> 65535 \<and> oc_add x y mod 65535 = (x + y) mod 65535 \<and> (oc_add x y = 0 \<longleftrightarrow> x + y = 0)"
proof (cases "x + y > 65535")
  case True
  then have e: "oc_add x y = x + y - 65535" by (simp add: oc_add_def)
  have "x + y = 65535 * 1 + (x + y - 65535)" using True by simp
  then have "(x + y - 65535) mod 65535 = (x + y) mod 65535" by (rule mod_65535_step)
  then show ?thesis using True assms unfolding e by simp
next
  case False
  then show ?thesis by (simp add: oc_add_def)
qed

lemma be_words_le: "w \<in> set (be_words bs) \<Longrightarrow> w \<le> 65535"
proof (induction bs arbitrary: w rule: be_words.induct)
  case 1 then show ?case by simp
next
  case (2 a)
  then show ?case using unat_u8_lt [of a] by simp
next
  case (3 a b bs)
  then show ?case using unat_u8_lt [of a] unat_u8_lt [of b] by auto
qed

lemma foldr_oc_add_props:
  assumes "\<And>w. w \<in> set ws \<Longrightarrow> w \<le> 65535"
  shows "foldr oc_add ws 0 \<le> 65535 \<and> foldr oc_add ws 0 mod 65535 = sum_list ws mod 65535
    \<and> (foldr oc_add ws 0 = 0 \<longleftrightarrow> sum_list ws = 0)"
  using assms
proof (induction ws)
  case Nil show ?case by simp
next
  case (Cons x ws)
  let ?y = "foldr oc_add ws 0"
  have ih: "?y \<le> 65535" "?y mod 65535 = sum_list ws mod 65535" "?y = 0 \<longleftrightarrow> sum_list ws = 0"
    using Cons.IH Cons.prems by simp_all
  have x: "x \<le> 65535" using Cons.prems by simp
  have p: "oc_add x ?y \<le> 65535" "oc_add x ?y mod 65535 = (x + ?y) mod 65535"
      "oc_add x ?y = 0 \<longleftrightarrow> x + ?y = 0"
    using oc_add_props [OF x ih(1)] by simp_all
  have "(x + ?y) mod 65535 = (x + sum_list ws) mod 65535"
    using ih(2) by (metis mod_add_right_eq)
  then show ?case using p ih(3) by simp
qed

lemma rfc1071_ok_iff:
  "rfc1071_ok bs \<longleftrightarrow> le_sum bs False \<noteq> 0 \<and> le_sum bs False mod 65535 = 0"
proof -
  let ?S = "rfc1071_sum bs" and ?B = "be_sum bs" and ?W = "le_sum bs False"
  have p: "?S \<le> 65535" "?S mod 65535 = ?B mod 65535" "?S = 0 \<longleftrightarrow> ?B = 0"
    using foldr_oc_add_props [of "be_words bs"] be_words_le [of _ bs]
    by (simp_all add: rfc1071_sum_def be_sum_def)
  have S: "?S = 65535 \<longleftrightarrow> ?B \<noteq> 0 \<and> 65535 dvd ?B"
  proof
    assume "?S = 65535"
    then show "?B \<noteq> 0 \<and> 65535 dvd ?B" using p by (auto simp: mod_eq_0_iff_dvd)
  next
    assume a: "?B \<noteq> 0 \<and> 65535 dvd ?B"
    then have "?S \<noteq> 0" "65535 dvd ?S" using p by (auto simp: mod_eq_0_iff_dvd [symmetric])
    then obtain k where k: "?S = 65535 * k" by auto
    with \<open>?S \<noteq> 0\<close> p(1) have "k = 1" by (cases k; cases "k - 1") auto
    with k show "?S = 65535" by simp
  qed
  have "65535 dvd ?B \<longleftrightarrow> 65535 dvd ?W"
  proof
    assume "65535 dvd ?B"
    then have "65535 dvd 256 * ?B" by simp
    then show "65535 dvd ?W" unfolding be_sum_le_sum by (simp add: dvd_add_left_iff)
  next
    assume "65535 dvd ?W"
    then have "65535 dvd 256 * ?W" by simp
    then show "65535 dvd ?B" unfolding le_sum_be_sum by (simp add: dvd_add_left_iff)
  qed
  then show ?thesis
    unfolding rfc1071_ok_def S using le_sum_zero_iff [of bs] by (auto simp: mod_eq_0_iff_dvd)
qed

lemma wire_ok_iff_check: "wire_checksum_ok m ip \<longleftrightarrow> ip_header_check m ip = 0"
  by (simp add: wire_checksum_ok_def rfc1071_ok_iff ip_header_check_zero_iff wsum_region)

lemma unat_etherSumWords:
  "unat (etherSumWords m a n s) = (unat s + wsum m a n False) mod 4294967296"
  by (simp add: etherSumWords_def unat_sumWords_loop)

lemma unat_proto_shift: "unat (push_bit 8 (ucast ((ucast (p::u8) :: u16) AND 0xff)) :: u32) = 256 * unat p"
proof -
  have ff: "(0xff::u16) = mask 8" by (simp add: mask_eq_exp_minus_1)
  have "(ucast ((ucast p :: u16) AND 0xff) :: u32) = ucast p"
    unfolding ff by (rule bit_word_eqI) (auto simp: bit_simps dest: bit_imp_le_length)
  then show ?thesis by (simp add: unat_push8_u8_u32)
qed

subsection \<open>Claim C2: a correct or freshly built IP header checksum verifies\<close>

lemma unat_u16_bytes:
  "unat (ucast (c::u16) :: u8) + 256 * unat (ucast (drop_bit 8 c) :: u8) = unat c"
proof -
  have lt: "unat c < 65536" by (rule unat_u16_lt)
  have a: "unat (ucast c :: u8) = unat c mod 256"
    by (simp add: unsigned_ucast_eq take_bit_eq_mod)
  have "unat (drop_bit 8 c) = unat c div 256"
    by (simp add: drop_bit_eq_div unat_div)
  then have b: "unat (ucast (drop_bit 8 c) :: u8) = unat c div 256"
    using lt by (simp add: unsigned_ucast_eq take_bit_eq_mod)
  show ?thesis unfolding a b by simp
qed

lemma wsum_two: "wsum m a 2 False = unat (m a) + 256 * unat (m (a + 1))"
  by (simp add: numeral_2_eq_2)

lemma calc_then_check:
  assumes "20 \<le> ip_hlen m ip"
  shows "ip_header_check (etherCalcIpChecksum m ip) ip = 0"
proof -
  let ?h = "ip_hlen m ip"
  let ?n2 = "?h - 12"
  have h60: "?h \<le> 60" by (rule ip_hlen_le)
  have n2: "to_u16 (int ?h - 12) = ?n2" using assms h60 by (simp add: to_u16_def)
  let ?s1 = "etherSumWords m ip 10 0"
  let ?s2 = "etherSumWords m (ip + 12) ?n2 ?s1"
  let ?c = "getEtherChecksum ?s2"
  let ?m' = "wr16 m (ip + 10) ?c"
  let ?A = "wsum m ip 10 False + wsum m (ip + 12) ?n2 False"
  have m': "etherCalcIpChecksum m ip = ?m'"
    by (simp add: etherCalcIpChecksum_def n2 Let_def)
  have b1: "wsum m ip 10 False \<le> 10 * 65280" by (rule wsum_bound)
  have b2: "wsum m (ip + 12) ?n2 False \<le> ?n2 * 65280" by (rule wsum_bound)
  have "?n2 * 65280 \<le> 48 * 65280" using h60 by simp
  with b1 b2 have Alt: "?A < 4294967296" by simp
  have s1: "unat ?s1 = wsum m ip 10 False" by (simp add: unat_etherSumWords_small)
  have s2: "unat ?s2 = ?A"
    using Alt by (simp add: etherSumWords_def unat_sumWords_loop s1 [unfolded etherSumWords_def])
  have hl: "ip_hlen ?m' ip = ?h" by (simp add: ip_hlen_def wr16_def)
  have split: "?h = 10 + (2 + ?n2)" using assms by simp
  have "wsum ?m' ip ?h False =
      wsum ?m' ip 10 False + (wsum ?m' (ip + 10) 2 False + wsum ?m' (ip + 12) ?n2 False)"
    by (subst split, subst wsum_append, subst wsum_append) (simp add: ac_simps)
  moreover have "wsum ?m' ip 10 False = wsum m ip 10 False"
    by (rule wsum_cong) (simp add: wr16_def)
  moreover have "wsum ?m' (ip + 12) ?n2 False = wsum m (ip + 12) ?n2 False"
    by (rule wsum_cong) (simp add: wr16_def)
  moreover have "wsum ?m' (ip + 10) 2 False = unat ?c"
    unfolding wsum_two using unat_u16_bytes [of ?c] by (simp add: wr16_def add.assoc)
  ultimately have W: "wsum ?m' ip ?h False = ?A + unat ?c" by simp
  let ?f = "unat (fold_carries ?s2)"
  have p: "?f < 65536" "?f mod 65535 = ?A mod 65535" "?f = 0 \<longleftrightarrow> ?A = 0"
    using fold_carries_props [of ?s2] unfolding s2 by simp_all
  have c: "unat ?c = 65535 - ?f" by (rule unat_getEtherChecksum)
  let ?T = "?A + (65535 - ?f)"
  have T0: "?T \<noteq> 0" using p by (cases "?f = 65535") simp_all
  have "?T mod 65535 = (?A mod 65535 + (65535 - ?f)) mod 65535" by (simp add: mod_add_left_eq)
  also have "\<dots> = (?f + (65535 - ?f)) mod 65535"
    unfolding p(2) [symmetric] by (simp add: mod_add_left_eq)
  also have "\<dots> = 0" using p(1) by simp
  finally have T1: "?T mod 65535 = 0" .
  show ?thesis
    unfolding m' ip_header_check_zero_iff hl W c using T0 T1 by simp
qed

text \<open>
  Claim C2. For every well-formed IPv4 header (header length field at least 5 words, so
  at least 20 bytes) at offset \<open>ip\<close> of the buffer: if its checksum is correct on the wire
  (the one's complement sum of its big-endian 16-bit words is all ones, RFC 1071), then
  resetting the accumulator, feeding the header to \<^verbatim>\<open>etherSumWords\<close> and folding with
  \<^verbatim>\<open>getEtherChecksum\<close> yields zero; and after the builder has stored the bit-inverted fold
  of the other header bytes in the checksum field (\<^verbatim>\<open>etherCalcIpChecksum\<close>), re-summing
  the whole header and folding yields zero as well.
\<close>

theorem ip_header_checksum_verifies:
  assumes "20 \<le> ip_hlen m ip"
  shows "(wire_checksum_ok m ip \<longrightarrow> ip_header_check m ip = 0)
       \<and> ip_header_check (etherCalcIpChecksum m ip) ip = 0"
  using assms by (simp add: wire_ok_iff_check calc_then_check)

theorem ip_header_checksum_verifies_witness:
  "20 \<le> ip_hlen (mem_of ping_request) 14
   \<and> wire_checksum_ok (mem_of ping_request) 14
   \<and> ip_header_check (mem_of ping_request) 14 = 0
   \<and> ip_header_check (etherCalcIpChecksum (mem_of ping_request) 14) 14 = 0"
proof -
  have h: "20 \<le> ip_hlen (mem_of ping_request) 14"
    by (simp add: ip_hlen_def mem_of_nth ping_request_def)
  have w: "wire_checksum_ok (mem_of ping_request) 14"
    by (simp add: wire_checksum_ok_def rfc1071_ok_def rfc1071_sum_def region_def ip_hlen_def
        mem_of_nth ping_request_def oc_add_def upt_rec_numeral)
  show ?thesis
    using ip_header_checksum_verifies [OF h] h w by simp
qed

section \<open>Address loops\<close>

lemma slice_map_upt: "a + n \<le> k \<Longrightarrow> slice (map f [0..<k]) a n = map f [a..<a + n]"
  by (simp add: slice_def drop_map take_map)

lemma cmp_loop_iff:
  "cmp_loop m p ref i k ok = (ok \<and> (\<forall>j<k. m (p + i + j) = ref (i + j)))"
proof (induction k arbitrary: i ok)
  case 0 show ?case by simp
next
  case (Suc k)
  have "(\<forall>j<Suc k. m (p + i + j) = ref (i + j)) =
        (m (p + i) = ref i \<and> (\<forall>j<k. m (p + (i + 1) + j) = ref (i + 1 + j)))"
    by (auto simp: less_Suc_eq_0_disj)
  then show ?case using Suc.IH [of "i + 1"] by auto
qed

lemma map_upt_eqI:
  assumes "\<And>j. j < n \<Longrightarrow> f (a + j) = g (b + j)"
  shows "map f [a..<a + n] = map g [b..<b + n]"
  by (rule nth_equalityI) (simp_all add: assms)

lemma swap_loop_other:
  "x < a + i \<or> a + i + k \<le> x \<Longrightarrow> x < b + i \<or> b + i + k \<le> x \<Longrightarrow>
   swap_loop a b i k m x = m x"
proof (induction k arbitrary: i m)
  case 0 show ?case by simp
next
  case (Suc k)
  have "swap_loop a b (i + 1) k (m(a + i := m (b + i), b + i := m (a + i))) x =
        (m(a + i := m (b + i), b + i := m (a + i))) x"
    using Suc.prems by (intro Suc.IH) auto
  then show ?case using Suc.prems by auto
qed

lemma swap_loop_fst:
  "a + k \<le> b \<or> b + k \<le> a \<Longrightarrow> j < k \<Longrightarrow> swap_loop a b i k m (a + i + j) = m (b + i + j)"
proof (induction k arbitrary: i j m)
  case 0 then show ?case by simp
next
  case (Suc k)
  let ?M = "m(a + i := m (b + i), b + i := m (a + i))"
  show ?case
  proof (cases j)
    case 0
    have "swap_loop a b (i + 1) k ?M (a + i) = ?M (a + i)"
      using Suc.prems by (intro swap_loop_other) auto
    then show ?thesis using 0 Suc.prems by auto
  next
    case (Suc j')
    have "swap_loop a b (i + 1) k ?M (a + (i + 1) + j') = ?M (b + (i + 1) + j')"
      using Suc.prems Suc by (intro Suc.IH) auto
    then show ?thesis using Suc Suc.prems by auto
  qed
qed

lemma swap_loop_snd:
  "a + k \<le> b \<or> b + k \<le> a \<Longrightarrow> j < k \<Longrightarrow> swap_loop a b i k m (b + i + j) = m (a + i + j)"
proof (induction k arbitrary: i j m)
  case 0 then show ?case by simp
next
  case (Suc k)
  let ?M = "m(a + i := m (b + i), b + i := m (a + i))"
  show ?case
  proof (cases j)
    case 0
    have "swap_loop a b (i + 1) k ?M (b + i) = ?M (b + i)"
      using Suc.prems by (intro swap_loop_other) auto
    then show ?thesis using 0 Suc.prems by auto
  next
    case (Suc j')
    have "swap_loop a b (i + 1) k ?M (b + (i + 1) + j') = ?M (a + (i + 1) + j')"
      using Suc.prems Suc by (intro Suc.IH) auto
    then show ?thesis using Suc Suc.prems by auto
  qed
qed

lemma htons_2_bytes:
  "(ucast (htons 2) :: u8) = 0" "(ucast (drop_bit 8 (htons 2)) :: u8) = 2"
  by (simp_all add: htons_def word_eq_iff_unsigned [where ?'a = nat] unsigned_ucast_eq drop_bit_eq_div unat_div)

lemma arp_hw_other:
  "x < 32 + i \<or> 32 + i + k \<le> x \<Longrightarrow> x < i \<or> i + k \<le> x \<Longrightarrow>
   x < 22 + i \<or> 22 + i + k \<le> x \<Longrightarrow> x < 6 + i \<or> 6 + i + k \<le> x \<Longrightarrow>
   arp_hw_loop mac i k m x = m x"
proof (induction k arbitrary: i m)
  case 0 show ?case by simp
next
  case (Suc k)
  let ?M = "(let m1 = m(ETH_DATA + 18 + i := m (ETH_DATA + 8 + i));
            m2 = m1(ETH_DEST + i := m1 (ETH_SRC + i));
            m3 = m2(ETH_DATA + 8 + i := mac i)
        in m3(ETH_SRC + i := m3 (ETH_DATA + 8 + i)))"
  have "arp_hw_loop mac (i + 1) k ?M x = ?M x"
    using Suc.prems by (intro Suc.IH) auto
  then show ?case using Suc.prems by (auto simp: Let_def)
qed

lemma arp_hw_tha:
  "i + k \<le> 6 \<Longrightarrow> j < k \<Longrightarrow> arp_hw_loop mac i k m (32 + i + j) = m (22 + i + j)"
proof (induction k arbitrary: i j m)
  case 0 then show ?case by simp
next
  case (Suc k)
  let ?M = "(let m1 = m(ETH_DATA + 18 + i := m (ETH_DATA + 8 + i));
            m2 = m1(ETH_DEST + i := m1 (ETH_SRC + i));
            m3 = m2(ETH_DATA + 8 + i := mac i)
        in m3(ETH_SRC + i := m3 (ETH_DATA + 8 + i)))"
  show ?case
  proof (cases j)
    case 0
    have "arp_hw_loop mac (i + 1) k ?M (32 + i) = ?M (32 + i)"
      using Suc.prems by (intro arp_hw_other) auto
    then show ?thesis using 0 Suc.prems by (auto simp: Let_def)
  next
    case (Suc j')
    have "arp_hw_loop mac (i + 1) k ?M (32 + (i + 1) + j') = ?M (22 + (i + 1) + j')"
      using Suc.prems Suc by (intro Suc.IH) auto
    then show ?thesis using Suc Suc.prems by (auto simp: Let_def add.assoc)
  qed
qed

lemma arp_hw_edst:
  "i + k \<le> 6 \<Longrightarrow> j < k \<Longrightarrow> arp_hw_loop mac i k m (0 + i + j) = m (6 + i + j)"
proof (induction k arbitrary: i j m)
  case 0 then show ?case by simp
next
  case (Suc k)
  let ?M = "(let m1 = m(ETH_DATA + 18 + i := m (ETH_DATA + 8 + i));
            m2 = m1(ETH_DEST + i := m1 (ETH_SRC + i));
            m3 = m2(ETH_DATA + 8 + i := mac i)
        in m3(ETH_SRC + i := m3 (ETH_DATA + 8 + i)))"
  show ?case
  proof (cases j)
    case 0
    have "arp_hw_loop mac (i + 1) k ?M (0 + i) = ?M (0 + i)"
      using Suc.prems by (intro arp_hw_other) auto
    then show ?thesis using 0 Suc.prems by (auto simp: Let_def)
  next
    case (Suc j')
    have "arp_hw_loop mac (i + 1) k ?M (0 + (i + 1) + j') = ?M (6 + (i + 1) + j')"
      using Suc.prems Suc by (intro Suc.IH) auto
    then show ?thesis using Suc Suc.prems by (auto simp: Let_def add.assoc)
  qed
qed

lemma arp_hw_sha:
  "i + k \<le> 6 \<Longrightarrow> j < k \<Longrightarrow> arp_hw_loop mac i k m (22 + i + j) = mac (i + j)"
proof (induction k arbitrary: i j m)
  case 0 then show ?case by simp
next
  case (Suc k)
  let ?M = "(let m1 = m(ETH_DATA + 18 + i := m (ETH_DATA + 8 + i));
            m2 = m1(ETH_DEST + i := m1 (ETH_SRC + i));
            m3 = m2(ETH_DATA + 8 + i := mac i)
        in m3(ETH_SRC + i := m3 (ETH_DATA + 8 + i)))"
  show ?case
  proof (cases j)
    case 0
    have "arp_hw_loop mac (i + 1) k ?M (22 + i) = ?M (22 + i)"
      using Suc.prems by (intro arp_hw_other) auto
    then show ?thesis using 0 Suc.prems by (auto simp: Let_def)
  next
    case (Suc j')
    have "arp_hw_loop mac (i + 1) k ?M (22 + (i + 1) + j') = mac ((i + 1) + j')"
      using Suc.prems Suc by (intro Suc.IH) auto
    then show ?thesis using Suc Suc.prems by (auto simp: Let_def add.assoc)
  qed
qed

lemma arp_hw_esrc:
  "i + k \<le> 6 \<Longrightarrow> j < k \<Longrightarrow> arp_hw_loop mac i k m (6 + i + j) = mac (i + j)"
proof (induction k arbitrary: i j m)
  case 0 then show ?case by simp
next
  case (Suc k)
  let ?M = "(let m1 = m(ETH_DATA + 18 + i := m (ETH_DATA + 8 + i));
            m2 = m1(ETH_DEST + i := m1 (ETH_SRC + i));
            m3 = m2(ETH_DATA + 8 + i := mac i)
        in m3(ETH_SRC + i := m3 (ETH_DATA + 8 + i)))"
  show ?case
  proof (cases j)
    case 0
    have "arp_hw_loop mac (i + 1) k ?M (6 + i) = ?M (6 + i)"
      using Suc.prems by (intro arp_hw_other) auto
    then show ?thesis using 0 Suc.prems by (auto simp: Let_def)
  next
    case (Suc j')
    have "arp_hw_loop mac (i + 1) k ?M (6 + (i + 1) + j') = mac ((i + 1) + j')"
      using Suc.prems Suc by (intro Suc.IH) auto
    then show ?thesis using Suc Suc.prems by (auto simp: Let_def add.assoc)
  qed
qed

lemma slice_map_eq:
  assumes "b \<le> k" "a \<le> b" "n = b - a" "\<And>x. a \<le> x \<Longrightarrow> x < b \<Longrightarrow> f x = g x"
  shows "slice (map f [0..<k]) a n = map g [a..<b]"
proof -
  have "slice (map f [0..<k]) a n = map f [a..<a + n]"
    using assms(1-3) by (intro slice_map_upt) simp
  also have "a + n = b" using assms(2,3) by simp
  finally show ?thesis using assms(4) by simp
qed

lemma swap_ether_dst: "j < 6 \<Longrightarrow> swap_ether_addresses m j = m (6 + j)"
  using swap_loop_fst [of 0 6 6 j 0 m] by (simp add: swap_ether_addresses_def HW_ADD_LENGTH_def)

lemma swap_ether_src: "j < 6 \<Longrightarrow> swap_ether_addresses m (6 + j) = m j"
  using swap_loop_snd [of 0 6 6 j 0 m] by (simp add: swap_ether_addresses_def HW_ADD_LENGTH_def)

lemma swap_ether_other: "12 \<le> x \<Longrightarrow> swap_ether_addresses m x = m x"
  unfolding swap_ether_addresses_def HW_ADD_LENGTH_def by (rule swap_loop_other) auto

lemma swap_ip_dst: "j < 4 \<Longrightarrow> swap_ip_addresses m (30 + j) = m (26 + j)"
  using swap_loop_fst [of 30 4 26 j 0 m] by (simp add: swap_ip_addresses_def IP_ADD_LENGTH_def)

lemma swap_ip_src: "j < 4 \<Longrightarrow> swap_ip_addresses m (26 + j) = m (30 + j)"
  using swap_loop_snd [of 30 4 26 j 0 m] by (simp add: swap_ip_addresses_def IP_ADD_LENGTH_def)

lemma swap_ip_other: "x < 26 \<or> 34 \<le> x \<Longrightarrow> swap_ip_addresses m x = m x"
  unfolding swap_ip_addresses_def IP_ADD_LENGTH_def by (rule swap_loop_other) auto

section \<open>Claim C4: the ARP reply\<close>

text \<open>
  Claim C4. For every received ARP request whose target protocol address equals the
  configured IP (\<^verbatim>\<open>etherIsArpRequest\<close> holds for the buffer), \<^verbatim>\<open>etherSendArpResponse\<close>
  hands exactly one frame of 42 octets to the controller, with ARP op 2 (bytes 20 and 21
  of the frame, big endian), sender hardware address (bytes 22 to 27) the device MAC,
  sender protocol address (bytes 28 to 31) the configured IP, target hardware address
  (bytes 32 to 37) the request's sender MAC and target protocol address (bytes 38 to 41)
  the request's sender IP.
\<close>

theorem arp_response_fields:
  assumes "etherIsArpRequest st"
  shows "\<exists>f. sent (etherSendArpResponse st) = sent st @ [f] \<and> length f = 42
     \<and> slice f 20 2 = [0, 2]
     \<and> slice f 22 6 = map (macAddress st) [0..<6]
     \<and> slice f 28 4 = map (ipAddress st) [0..<4]
     \<and> slice f 32 6 = map (data st) [22..<28]
     \<and> slice f 38 4 = map (data st) [28..<32]"
proof -
  let ?mac = "macAddress st"
  let ?ma = "wr16 (data st) 20 (htons 2)"
  let ?mb = "arp_hw_loop ?mac 0 6 ?ma"
  let ?m = "swap_loop 38 28 0 4 ?mb"
  have ip: "\<And>j. j < 4 \<Longrightarrow> data st (38 + j) = ipAddress st j"
    using assms unfolding etherIsArpRequest_def Let_def cmp_loop_iff IP_ADD_LENGTH_def
    by (auto split: if_splits)
  have m0: "\<And>x. ?ma x = (if x = 21 then 2 else if x = 20 then 0 else data st x)"
    by (simp add: wr16_def htons_2_bytes)
  have st': "etherSendArpResponse st = etherPutPacket 42 (st\<lparr>data := ?m\<rparr>)"
    by (simp add: etherSendArpResponse_def Let_def HW_ADD_LENGTH_def IP_ADD_LENGTH_def)
  have op: "?m 20 = 0" "?m 21 = 2"
    by (simp_all add: swap_loop_other arp_hw_other m0)
  have sha: "?m (22 + j) = ?mac j" if "j < 6" for j
    using that arp_hw_sha [of 0 6 j ?mac ?ma] by (simp add: swap_loop_other)
  have spa: "?m (28 + j) = ipAddress st j" if "j < 4" for j
    using that swap_loop_snd [of 38 4 28 j 0 ?mb] by (simp add: arp_hw_other m0 ip)
  have tha: "?m (32 + j) = data st (22 + j)" if "j < 6" for j
    using that arp_hw_tha [of 0 6 j ?mac ?ma] by (simp add: swap_loop_other m0)
  have tpa: "?m (38 + j) = data st (28 + j)" if "j < 4" for j
    using that swap_loop_fst [of 38 4 28 j 0 ?mb] by (simp add: arp_hw_other m0)
  let ?f = "map ?m [0..<42]"
  have 1: "slice ?f 20 2 = [0, 2]"
    unfolding slice_map_upt [of 20 2 42 ?m, simplified] by (simp add: upt_rec_numeral op)
  have 2: "slice ?f 22 6 = map ?mac [0..<6]"
    unfolding slice_map_upt [of 22 6 42 ?m, simplified]
    using map_upt_eqI [of 6 ?m 22 ?mac 0] sha by simp
  have 3: "slice ?f 28 4 = map (ipAddress st) [0..<4]"
    unfolding slice_map_upt [of 28 4 42 ?m, simplified]
    using map_upt_eqI [of 4 ?m 28 "ipAddress st" 0] spa by simp
  have 4: "slice ?f 32 6 = map (data st) [22..<28]"
    unfolding slice_map_upt [of 32 6 42 ?m, simplified]
    using map_upt_eqI [of 6 ?m 32 "data st" 22] tha by simp
  have 5: "slice ?f 38 4 = map (data st) [28..<32]"
    unfolding slice_map_upt [of 38 4 42 ?m, simplified]
    using map_upt_eqI [of 4 ?m 38 "data st" 28] tpa by simp
  show ?thesis
    unfolding st' using 1 2 3 4 5 by (simp add: etherPutPacket_def)
qed

theorem arp_response_fields_witness:
  "etherIsArpRequest (host_state arp_request)
   \<and> (\<exists>f. sent (etherSendArpResponse (host_state arp_request)) = [f] \<and> length f = 42
     \<and> slice f 20 2 = [0, 2]
     \<and> slice f 22 6 = [2, 3, 4, 5, 6, 136]
     \<and> slice f 28 4 = [192, 168, 1, 199]
     \<and> slice f 32 6 = [0, 17, 34, 51, 68, 85]
     \<and> slice f 38 4 = [192, 168, 1, 1])"
proof -
  have h: "etherIsArpRequest (host_state arp_request)"
    by (simp add: etherIsArpRequest_def host_state_def arp_request_def mem_of_nth rd16_def
        htons_def IP_ADD_LENGTH_def cmp_loop_numeral)
  have s: "sent (host_state arp_request) = []"
    "map (macAddress (host_state arp_request)) [0..<6] = [2, 3, 4, 5, 6, 136]"
    "map (ipAddress (host_state arp_request)) [0..<4] = [192, 168, 1, 199]"
    "map (data (host_state arp_request)) [22..<28] = [0, 17, 34, 51, 68, 85]"
    "map (data (host_state arp_request)) [28..<32] = [192, 168, 1, 1]"
    by (simp_all add: host_state_def arp_request_def mem_of_nth upt_conv_Cons)
  show ?thesis
    using arp_response_fields [OF h] h unfolding s by simp
qed

section \<open>Claim C5: the ICMP echo reply\<close>

text \<open>
  Claim C5. For every received ICMP echo request (\<^verbatim>\<open>etherIsPingRequest\<close> holds: protocol
  1, ICMP type 8) that is well formed (IP header of at least 20 bytes, total length
  covering the 8-byte ICMP header, frame of \<open>14 + total length\<close> bytes within the packet
  buffer) \<^verbatim>\<open>etherSendPingResponse\<close> hands exactly one frame to the controller. It has the
  request's length; its Ethernet destination and source are the request's source and
  destination, and so are its IP source and destination (bytes 26 to 33); its IP total
  length field (bytes 16, 17) is the request's; its ICMP type is 0; its ICMP id, sequence
  number and payload (all bytes behind the ICMP checksum up to the end of the datagram) are
  the request's.
\<close>

theorem ping_response_fields:
  assumes ping: "etherIsPingRequest st"
    and wf: "20 \<le> ip_hlen (data st) 14"
    and len: "ip_hlen (data st) 14 + 8 \<le> ip_total_length (data st)"
    and fits: "14 + ip_total_length (data st) \<le> MAX_PACKET_SIZE"
  shows "\<exists>f. sent (etherSendPingResponse st) = sent st @ [f]
     \<and> length f = 14 + ip_total_length (data st)
     \<and> slice f 0 6 = map (data st) [6..<12]
     \<and> slice f 6 6 = map (data st) [0..<6]
     \<and> slice f 26 4 = map (data st) [30..<34]
     \<and> slice f 30 4 = map (data st) [26..<30]
     \<and> slice f 16 2 = map (data st) [16..<18]
     \<and> f ! l4_off (data st) = 0
     \<and> slice f (l4_off (data st) + 4) 2 = map (data st) [l4_off (data st) + 4..<l4_off (data st) + 6]
     \<and> slice f (l4_off (data st) + 6) 2 = map (data st) [l4_off (data st) + 6..<l4_off (data st) + 8]
     \<and> slice f (l4_off (data st) + 8) (14 + ip_total_length (data st) - (l4_off (data st) + 8))
          = map (data st) [l4_off (data st) + 8..<14 + ip_total_length (data st)]"
proof -
  let ?m = "data st"
  let ?L = "ip_total_length ?m"
  let ?ic = "l4_off ?m"
  let ?ma = "swap_ip_addresses (swap_ether_addresses ?m)"
  let ?mb = "?ma(?ic := 0)"
  let ?c = "getEtherChecksum (etherSumWords ?mb (?ic + 4)
              (to_u16 (int (unat (htons (rd16 ?mb 16))) - 24)) (etherSumWords ?mb ?ic 2 0))"
  define mc where "mc = wr16 ?mb (?ic + 2) ?c"
  have ic: "34 \<le> ?ic" "?ic = 14 + ip_hlen ?m 14" using wf by (simp_all add: l4_off_def)
  have mc_other: "mc x = ?m x" if "12 \<le> x" "x < 26 \<or> 34 \<le> x" "x < ?ic \<or> ?ic + 4 \<le> x" "x \<noteq> ?ic" for x
    using that ic(1) unfolding mc_def by (auto simp: wr16_def swap_ip_other swap_ether_other)
  have Lc: "ip_total_length mc = ?L"
    using ic(1) by (simp add: ip_total_length_def rd16_def mc_other)
  have L16: "to_u16 (14 + int ?L) = 14 + ?L"
    using fits by (simp add: to_u16_def MAX_PACKET_SIZE_def)
  have "etherSendPingResponse st =
      etherPutPacket (to_u16 (14 + int (ip_total_length mc))) (st\<lparr>data := mc\<rparr>)"
    unfolding mc_def by (simp add: etherSendPingResponse_def Let_def ip_total_length_def)
  then have st': "etherSendPingResponse st = etherPutPacket (14 + ?L) (st\<lparr>data := mc\<rparr>)"
    unfolding Lc L16 .
  let ?f = "map mc [0..<14 + ?L]"
  have icL: "?ic + 8 \<le> 14 + ?L" using len ic(2) by simp
  have 1: "slice ?f 0 6 = map ?m [6..<12]"
    unfolding slice_map_upt [of 0 6 "14 + ?L" mc, simplified]
    using map_upt_eqI [of 6 mc 0 ?m 6] ic(1)
    by (simp add: mc_def wr16_def swap_ip_other swap_ether_dst)
  have 2: "slice ?f 6 6 = map ?m [0..<6]"
    using icL ic(1) map_upt_eqI [of 6 mc 6 ?m 0]
    by (subst slice_map_upt) (simp_all add: mc_def wr16_def swap_ip_other swap_ether_src)
  have 3: "slice ?f 26 4 = map ?m [30..<34]"
    using icL ic(1) map_upt_eqI [of 4 mc 26 ?m 30]
    by (subst slice_map_upt) (simp_all add: mc_def wr16_def swap_ip_src swap_ether_other)
  have 4: "slice ?f 30 4 = map ?m [26..<30]"
    using icL ic(1) map_upt_eqI [of 4 mc 30 ?m 26]
    by (subst slice_map_upt) (simp_all add: mc_def wr16_def swap_ip_dst swap_ether_other)
  have 5: "slice ?f 16 2 = map ?m [16..<18]"
    using icL ic(1) by (intro slice_map_eq) (simp_all add: mc_other)
  have 6: "?f ! ?ic = 0"
    using icL by (simp add: mc_def wr16_def)
  have 7: "slice ?f (?ic + 4) 2 = map ?m [?ic + 4..<?ic + 6]"
    using icL ic(1) by (intro slice_map_eq) (simp_all add: mc_other)
  have 8: "slice ?f (?ic + 6) 2 = map ?m [?ic + 6..<?ic + 8]"
    using icL ic(1) by (intro slice_map_eq) (simp_all add: mc_other)
  have 9: "slice ?f (?ic + 8) (14 + ?L - (?ic + 8)) = map ?m [?ic + 8..<14 + ?L]"
    using icL ic(1) by (intro slice_map_eq) (simp_all add: mc_other)
  show ?thesis
    unfolding st' using 1 2 3 4 5 6 7 8 9 by (simp add: etherPutPacket_def)
qed

theorem ping_response_fields_witness:
  "etherIsPingRequest (host_state ping_request)
   \<and> 20 \<le> ip_hlen (data (host_state ping_request)) 14
   \<and> ip_hlen (data (host_state ping_request)) 14 + 8 \<le> ip_total_length (data (host_state ping_request))
   \<and> 14 + ip_total_length (data (host_state ping_request)) \<le> MAX_PACKET_SIZE
   \<and> (\<exists>f. sent (etherSendPingResponse (host_state ping_request)) = [f]
     \<and> length f = 48
     \<and> slice f 0 6 = [0, 17, 34, 51, 68, 85]
     \<and> slice f 6 6 = [2, 3, 4, 5, 6, 136]
     \<and> slice f 26 4 = [192, 168, 1, 199]
     \<and> slice f 30 4 = [192, 168, 1, 1]
     \<and> slice f 16 2 = [0, 34]
     \<and> f ! 34 = 0
     \<and> slice f 38 2 = [0, 1]
     \<and> slice f 40 2 = [0, 7]
     \<and> slice f 42 6 = [97, 98, 99, 100, 101, 102])"
proof -
  let ?st = "host_state ping_request"
  have hl: "ip_hlen (data ?st) 14 = 20"
    by (simp add: host_state_def ping_request_def mem_of_nth ip_hlen_def)
  have l4: "l4_off (data ?st) = 34"
    by (simp add: l4_off_def hl)
  have tl: "ip_total_length (data ?st) = 34"
    by (simp add: ip_total_length_def host_state_def ping_request_def mem_of_nth rd16_def htons_def)
  have h1: "etherIsPingRequest ?st"
    unfolding etherIsPingRequest_def Let_def l4
    by (simp add: host_state_def ping_request_def mem_of_nth)
  have h2: "20 \<le> ip_hlen (data ?st) 14" by (simp add: hl)
  have h3: "ip_hlen (data ?st) 14 + 8 \<le> ip_total_length (data ?st)" by (simp add: hl tl)
  have h4: "14 + ip_total_length (data ?st) \<le> MAX_PACKET_SIZE"
    by (simp add: tl MAX_PACKET_SIZE_def)
  have d: "data ?st = mem_of ping_request" "sent ?st = []"
    by (simp_all add: host_state_def)
  note r = ping_response_fields [OF h1 h2 h3 h4, unfolded l4 tl, unfolded d]
  from r obtain f where
    "sent (etherSendPingResponse ?st) = [f]
     \<and> length f = 48
     \<and> slice f 0 6 = [0, 17, 34, 51, 68, 85]
     \<and> slice f 6 6 = [2, 3, 4, 5, 6, 136]
     \<and> slice f 26 4 = [192, 168, 1, 199]
     \<and> slice f 30 4 = [192, 168, 1, 1]
     \<and> slice f 16 2 = [0, 34]
     \<and> f ! 34 = 0
     \<and> slice f 38 2 = [0, 1]
     \<and> slice f 40 2 = [0, 7]
     \<and> slice f 42 6 = [97, 98, 99, 100, 101, 102]"
    by (auto simp: ping_request_def mem_of_nth upt_conv_Cons)
  then show ?thesis using h1 h2 h3 h4 by blast
qed

section \<open>Properties of the option encoder and scanner\<close>

text \<open>The region at offset \<open>a\<close> holds the encoding of the options.\<close>

fun enc_at :: "mem \<Rightarrow> nat \<Rightarrow> (u8 \<times> u8 list) list \<Rightarrow> bool" where
  "enc_at m a [] = True"
| "enc_at m a ((number, vs) # ops) =
     (m a = number \<and> m (a + 1) = of_nat (length vs) \<and> map m [a + 2..<a + 2 + length vs] = vs
      \<and> enc_at m (a + 2 + length vs) ops)"

lemma enc_at_cong:
  "(\<And>x. a \<le> x \<Longrightarrow> m x = m' x) \<Longrightarrow> enc_at m a ops = enc_at m' a ops"
proof (induction ops arbitrary: a)
  case Nil show ?case by simp
next
  case (Cons op ops)
  obtain n vs where op: "op = (n, vs)" by (cases op)
  have 3: "map m [a + 2..<a + 2 + length vs] = map m' [a + 2..<a + 2 + length vs]"
  proof (rule map_cong [OF refl])
    fix x assume "x \<in> set [a + 2..<a + 2 + length vs]"
    then have "a + 2 \<le> x" unfolding set_upt atLeastLessThan_iff by blast
    then have "a \<le> x" by simp
    then show "m x = m' x" by (rule Cons.prems)
  qed
  have 4: "enc_at m (a + 2 + length vs) ops = enc_at m' (a + 2 + length vs) ops"
    using Cons.prems by (intro Cons.IH) simp
  have 1: "m a = m' a" and 2: "m (a + 1) = m' (a + 1)" by (simp_all add: Cons.prems)
  show ?case unfolding op enc_at.simps 1 2 3 4 by (rule refl)
qed

lemma unat_u8_succ: "unat (s::u8) < 255 \<Longrightarrow> unat (s + 1) = unat s + 1"
  by (simp add: unat_word_ariths)

lemma putOption_loop_size:
  "unat sz + k \<le> 255 \<Longrightarrow> unat (snd (putOption_loop base args i k (m, sz))) = unat sz + k"
proof (induction k arbitrary: i m sz)
  case 0 show ?case by simp
next
  case (Suc k)
  have s1: "unat (sz + 1) = unat sz + 1" using Suc.prems by (intro unat_u8_succ) simp
  have "unat (snd (putOption_loop base args (i + 1) k (m(base + unat sz := args i), sz + 1)))
      = unat (sz + 1) + k"
    using Suc.prems s1 by (intro Suc.IH) simp
  then show ?case using s1 by simp
qed

lemma putOption_loop_other:
  "unat sz + k \<le> 255 \<Longrightarrow> x < base + unat sz \<or> base + unat sz + k \<le> x \<Longrightarrow>
   fst (putOption_loop base args i k (m, sz)) x = m x"
proof (induction k arbitrary: i m sz)
  case 0 show ?case by simp
next
  case (Suc k)
  have s1: "unat (sz + 1) = unat sz + 1" using Suc.prems by (intro unat_u8_succ) simp
  have "fst (putOption_loop base args (i + 1) k (m(base + unat sz := args i), sz + 1)) x
      = (m(base + unat sz := args i)) x"
    using Suc.prems s1 by (intro Suc.IH) auto
  then show ?case using Suc.prems by auto
qed

lemma putOption_loop_values:
  "unat sz + k \<le> 255 \<Longrightarrow> j < k \<Longrightarrow>
   fst (putOption_loop base args i k (m, sz)) (base + unat sz + j) = args (i + j)"
proof (induction k arbitrary: i j m sz)
  case 0 then show ?case by simp
next
  case (Suc k)
  let ?m = "m(base + unat sz := args i)"
  have s1: "unat (sz + 1) = unat sz + 1" using Suc.prems by (intro unat_u8_succ) simp
  have b: "unat (sz + 1) + k \<le> 255" using Suc.prems s1 by simp
  show ?case
  proof (cases j)
    case 0
    have "fst (putOption_loop base args (i + 1) k (?m, sz + 1)) (base + unat sz) = ?m (base + unat sz)"
      using b s1 by (intro putOption_loop_other) auto
    then show ?thesis using 0 by simp
  next
    case (Suc j')
    have "fst (putOption_loop base args (i + 1) k (?m, sz + 1)) (base + unat (sz + 1) + j')
        = args (i + 1 + j')"
      using b Suc Suc.prems by (intro Suc.IH) auto
    then show ?thesis using Suc s1 by (simp add: add.assoc)
  qed
qed

lemma unat_of_nat_u8: "n \<le> 255 \<Longrightarrow> unat (of_nat n :: u8) = n"
  by (simp add: unat_of_nat)

lemma putOption_size:
  assumes "unat sz + 2 + unat count \<le> 255"
  shows "unat (snd (putOption m base sz number count args)) = unat sz + 2 + unat count"
proof -
  have s1: "unat (sz + 1) = unat sz + 1" using assms by (intro unat_u8_succ) simp
  have s2: "unat (sz + 1 + 1) = unat sz + 2" using assms s1 unat_u8_succ [of "sz + 1"] by simp
  show ?thesis
    unfolding putOption_def Let_def using assms s2 by (subst putOption_loop_size) simp_all
qed

lemma putOption_other:
  assumes "unat sz + 2 + unat count \<le> 255"
    and "x < base + unat sz \<or> base + unat sz + 2 + unat count \<le> x"
  shows "fst (putOption m base sz number count args) x = m x"
proof -
  have s1: "unat (sz + 1) = unat sz + 1" using assms by (intro unat_u8_succ) simp
  have s2: "unat (sz + 1 + 1) = unat sz + 2" using assms s1 unat_u8_succ [of "sz + 1"] by simp
  show ?thesis
    unfolding putOption_def Let_def using assms s1 s2
    by (subst putOption_loop_other) auto
qed

lemma putOption_header:
  assumes "unat sz + 2 + unat count \<le> 255"
  shows "fst (putOption m base sz number count args) (base + unat sz) = number"
    and "fst (putOption m base sz number count args) (base + unat sz + 1) = count"
proof -
  have s1: "unat (sz + 1) = unat sz + 1" using assms by (intro unat_u8_succ) simp
  have s2: "unat (sz + 1 + 1) = unat sz + 2" using assms s1 unat_u8_succ [of "sz + 1"] by simp
  show "fst (putOption m base sz number count args) (base + unat sz) = number"
    unfolding putOption_def Let_def using assms s1 s2
    by (subst putOption_loop_other) auto
  show "fst (putOption m base sz number count args) (base + unat sz + 1) = count"
    unfolding putOption_def Let_def using assms s1 s2
    by (subst putOption_loop_other) auto
qed

lemma putOption_values:
  assumes "unat sz + 2 + unat count \<le> 255" "j < unat count"
  shows "fst (putOption m base sz number count args) (base + unat sz + 2 + j) = args j"
proof -
  have s1: "unat (sz + 1) = unat sz + 1" using assms by (intro unat_u8_succ) simp
  have s2: "unat (sz + 1 + 1) = unat sz + 2" using assms s1 unat_u8_succ [of "sz + 1"] by simp
  have "fst (putOption_loop base args 0 (unat count)
           ((m(base + unat sz := number))(base + unat (sz + 1) := count), sz + 1 + 1))
          (base + unat (sz + 1 + 1) + j) = args (0 + j)"
    using assms s2 by (intro putOption_loop_values) simp_all
  then show ?thesis unfolding putOption_def Let_def s2 by (simp add: add.assoc)
qed

lemma putOption_list_size:
  assumes "unat sz + 2 + length vs \<le> 255"
  shows "unat (snd (putOption m base sz n (of_nat (length vs)) (\<lambda>i. vs ! i))) = unat sz + 2 + length vs"
proof -
  have c: "unat (of_nat (length vs) :: u8) = length vs" using assms by (intro unat_of_nat_u8) simp
  show ?thesis using assms by (subst putOption_size) (simp_all add: c)
qed

lemma put_options_size:
  "unat sz + region_size ops \<le> 255 \<Longrightarrow>
   unat (snd (put_options ops base (m, sz))) = unat sz + region_size ops"
proof (induction ops arbitrary: m sz)
  case Nil show ?case by simp
next
  case (Cons op ops)
  obtain n vs where op: "op = (n, vs)" by (cases op)
  let ?r = "putOption m base sz n (of_nat (length vs)) (\<lambda>i. vs ! i)"
  have b: "unat sz + 2 + length vs + region_size ops \<le> 255" using Cons.prems by (simp add: op)
  have s1: "unat (snd ?r) = unat sz + 2 + length vs"
    using b by (intro putOption_list_size) simp
  have "unat (snd (put_options ops base (fst ?r, snd ?r))) = unat (snd ?r) + region_size ops"
    using b s1 by (intro Cons.IH) simp
  then show ?case using s1 by (simp add: op)
qed

lemma put_options_low:
  "unat sz + region_size ops \<le> 255 \<Longrightarrow> x < base + unat sz \<Longrightarrow>
   fst (put_options ops base (m, sz)) x = m x"
proof (induction ops arbitrary: m sz)
  case Nil show ?case by simp
next
  case (Cons op ops)
  obtain n vs where op: "op = (n, vs)" by (cases op)
  let ?c = "of_nat (length vs) :: u8"
  let ?r = "putOption m base sz n ?c (\<lambda>i. vs ! i)"
  have b: "unat sz + 2 + length vs + region_size ops \<le> 255" using Cons.prems by (simp add: op)
  have c: "unat ?c = length vs" using b by (intro unat_of_nat_u8) simp
  have s1: "unat (snd ?r) = unat sz + 2 + length vs"
    using b by (intro putOption_list_size) simp
  have "fst (put_options ops base (fst ?r, snd ?r)) x = fst ?r x"
    using b s1 Cons.prems(2) by (intro Cons.IH) simp_all
  also have "\<dots> = m x"
    using b c Cons.prems(2) by (intro putOption_other) simp_all
  finally show ?case by (simp add: op)
qed

lemma put_options_enc:
  "unat sz + region_size ops \<le> 255 \<Longrightarrow>
   enc_at (fst (put_options ops base (m, sz))) (base + unat sz) ops"
proof (induction ops arbitrary: m sz)
  case Nil show ?case by simp
next
  case (Cons op ops)
  obtain n vs where op: "op = (n, vs)" by (cases op)
  let ?c = "of_nat (length vs) :: u8"
  let ?r = "putOption m base sz n ?c (\<lambda>i. vs ! i)"
  let ?res = "put_options ops base (fst ?r, snd ?r)"
  have res: "put_options ((n, vs) # ops) base (m, sz) = ?res" by simp
  have b: "unat sz + 2 + length vs + region_size ops \<le> 255" using Cons.prems by (simp add: op)
  have c: "unat ?c = length vs" using b by (intro unat_of_nat_u8) simp
  have bc: "unat sz + 2 + unat ?c \<le> 255" using b c by simp
  have s1: "unat (snd ?r) = unat sz + 2 + length vs"
    using b by (intro putOption_list_size) simp
  have low: "fst ?res x = fst ?r x" if "x < base + unat (snd ?r)" for x
    using b s1 that by (intro put_options_low) simp_all
  have e: "enc_at (fst ?res) (base + unat (snd ?r)) ops"
    using b s1 by (intro Cons.IH) simp
  let ?a = "base + unat sz"
  have 1: "fst ?res ?a = n"
    using low [of ?a] s1 putOption_header(1) [OF bc, of m base n "\<lambda>i. vs ! i"] by simp
  have 2: "fst ?res (?a + 1) = ?c"
    using low [of "?a + 1"] s1 putOption_header(2) [OF bc, of m base n "\<lambda>i. vs ! i"] by simp
  have 3: "map (fst ?res) [?a + 2..<?a + 2 + length vs] = vs"
  proof (rule nth_equalityI)
    show "length (map (fst ?res) [?a + 2..<?a + 2 + length vs]) = length vs"
      by (simp only: length_map length_upt add_diff_cancel_left')
  next
    fix j assume "j < length (map (fst ?res) [?a + 2..<?a + 2 + length vs])"
    then have j: "j < length vs"
      by (simp only: length_map length_upt add_diff_cancel_left')
    then have "map (fst ?res) [?a + 2..<?a + 2 + length vs] ! j = fst ?res (?a + 2 + j)"
      by (intro nth_map_upt) (simp only: add_diff_cancel_left')
    also have "\<dots> = fst ?r (?a + 2 + j)" using j s1 by (intro low) simp
    also have "\<dots> = vs ! j"
      using j c putOption_values [OF bc, of j m base n "\<lambda>i. vs ! i"] by simp
    finally show "map (fst ?res) [?a + 2..<?a + 2 + length vs] ! j = vs ! j" .
  qed
  have 4: "enc_at (fst ?res) (?a + 2 + length vs) ops"
    using e s1 by (simp add: add.assoc)
  show ?case unfolding op enc_at.simps res using 1 2 3 4 by blast
qed

lemma region_size_append: "region_size (xs @ ys) = region_size xs + region_size ys"
  by (induction xs) auto

lemma enc_at_append:
  "enc_at m a (xs @ ys) = (enc_at m a xs \<and> enc_at m (a + region_size xs) ys)"
proof (induction xs arbitrary: a)
  case Nil show ?case by simp
next
  case (Cons op xs)
  obtain n vs where op: "op = (n, vs)" by (cases op)
  show ?case using Cons.IH [of "a + 2 + length vs"] by (simp add: op add.assoc)
qed

lemma option_offset_absent: "n \<notin> fst ` set ops \<Longrightarrow> option_offset ops n = None"
  by (induction ops) auto

lemma option_offset_first:
  "n \<notin> fst ` set pre \<Longrightarrow> option_offset (pre @ (n, vs) # post) n = Some (region_size pre)"
  by (induction pre) auto

lemma getOption_loop_scan:
  assumes "enc_at m (base + unat i) ops" "unat i + region_size ops = unat sz"
  shows "getOption_loop m base n sz i =
     Some (case option_offset ops n of None \<Rightarrow> NULL | Some off \<Rightarrow> Ptr (base + unat i + off + 2))"
  using assms
proof (induction ops arbitrary: i)
  case Nil
  then have "\<not> i < sz" by (simp add: word_less_nat_alt)
  then show ?case by (subst getOption_loop.simps) simp
next
  case (Cons op ops)
  obtain k vs where op: "op = (k, vs)" by (cases op)
  have sz: "unat sz \<le> 255" using unat_u8_lt [of sz] by simp
  have e: "m (base + unat i) = k" "m (base + unat i + 1) = of_nat (length vs)"
      "enc_at m (base + unat i + 2 + length vs) ops"
    using Cons.prems(1) by (simp_all add: op)
  have r: "unat i + 2 + length vs + region_size ops = unat sz"
    using Cons.prems(2) by (simp add: op)
  have lt: "i < sz" using r by (simp add: word_less_nat_alt)
  show ?case
  proof (cases "k = n")
    case True
    then show ?thesis using lt e(1) by (subst getOption_loop.simps) (simp add: op)
  next
    case False
    let ?i = "i + (of_nat (length vs) + 2)"
    have "unat (of_nat (length vs) + 2 :: u8) = length vs + 2"
      using r sz by (simp add: unat_word_ariths unat_of_nat)
    then have i': "unat ?i = unat i + 2 + length vs"
      using r sz by (simp add: unat_word_ariths)
    have "getOption_loop m base n sz ?i =
       Some (case option_offset ops n of None \<Rightarrow> NULL | Some off \<Rightarrow> Ptr (base + unat ?i + off + 2))"
      using e(3) r i' by (intro Cons.IH) (simp_all add: add.assoc)
    moreover have "getOption_loop m base n sz i = getOption_loop m base n sz ?i"
      using lt e(1,2) False by (subst getOption_loop.simps) simp
    ultimately show ?thesis
      using False i' by (simp add: op add.assoc split: option.splits)
  qed
qed

section \<open>Claim C8: \<^verbatim>\<open>putOption\<close> followed by \<^verbatim>\<open>getOption\<close>\<close>

text \<open>
  Claim C8. Let a well-formed options region be written by a sequence of \<^verbatim>\<open>putOption\<close>
  calls starting with the cursor at 0, the whole region within the 255 bytes that the
  \<^verbatim>\<open>uint8_t\<close> cursor and the \<^verbatim>\<open>uint8_t\<close> size argument of \<^verbatim>\<open>getOption\<close> can express. Then
  \<^verbatim>\<open>getOption\<close> returns, and: for a number that was never written it returns NULL; for a
  number that was written it returns the pointer to the values of the first option
  written for that number, and these bytes are the values written.
\<close>

theorem put_then_get_option:
  assumes "region_size ops \<le> 255"
    and "put_options ops base (m, 0) = (m', sz)"
  shows "(n \<notin> fst ` set ops \<longrightarrow> getOption m' base n sz = Some NULL)
     \<and> (\<forall>pre vs post. ops = pre @ (n, vs) # post \<and> n \<notin> fst ` set pre \<longrightarrow>
           getOption m' base n sz = Some (Ptr (base + region_size pre + 2))
         \<and> map m' [base + region_size pre + 2..<base + region_size pre + 2 + length vs] = vs)"
proof -
  have b: "unat (0::u8) + region_size ops \<le> 255" using assms(1) by simp
  have m': "m' = fst (put_options ops base (m, 0))" and sz': "sz = snd (put_options ops base (m, 0))"
    using assms(2) by simp_all
  have sz: "unat (0::u8) + region_size ops = unat sz"
    unfolding sz' using put_options_size [OF b, of base m] by simp
  have enc: "enc_at m' (base + unat (0::u8)) ops"
    unfolding m' by (rule put_options_enc [OF b])
  have scan: "getOption m' base n sz =
     Some (case option_offset ops n of None \<Rightarrow> NULL | Some off \<Rightarrow> Ptr (base + unat (0::u8) + off + 2))"
    unfolding getOption_def by (rule getOption_loop_scan [OF enc sz])
  have 1: "getOption m' base n sz = Some NULL" if "n \<notin> fst ` set ops"
    using scan option_offset_absent [OF that] by simp
  have 2: "getOption m' base n sz = Some (Ptr (base + region_size pre + 2))
         \<and> map m' [base + region_size pre + 2..<base + region_size pre + 2 + length vs] = vs"
    if "ops = pre @ (n, vs) # post" "n \<notin> fst ` set pre" for pre vs post
  proof -
    have "enc_at m' (base + region_size pre) ((n, vs) # post)"
      using enc unfolding that(1) enc_at_append by simp
    then have "map m' [base + region_size pre + 2..<base + region_size pre + 2 + length vs] = vs"
      unfolding enc_at.simps by blast
    then show ?thesis
      using scan option_offset_first [OF that(2), of vs post] that(1) by simp
  qed
  show ?thesis using 1 2 by blast
qed

theorem put_then_get_option_witness:
  "region_size example_options \<le> 255
   \<and> getOption (fst (put_options example_options 282 (\<lambda>a. 0, 0))) 282 54
         (snd (put_options example_options 282 (\<lambda>a. 0, 0))) = Some NULL
   \<and> getOption (fst (put_options example_options 282 (\<lambda>a. 0, 0))) 282 53
         (snd (put_options example_options 282 (\<lambda>a. 0, 0))) = Some (Ptr 284)
   \<and> map (fst (put_options example_options 282 (\<lambda>a. 0, 0))) [284..<285] = [3]
   \<and> getOption (fst (put_options example_options 282 (\<lambda>a. 0, 0))) 282 55
         (snd (put_options example_options 282 (\<lambda>a. 0, 0))) = Some (Ptr 287)
   \<and> map (fst (put_options example_options 282 (\<lambda>a. 0, 0))) [287..<292] = [1, 2, 3, 6, 51]"
proof -
  let ?r = "put_options example_options 282 (\<lambda>a. 0, 0)"
  have a: "region_size example_options \<le> 255" by (simp add: example_options_def)
  have b: "?r = (fst ?r, snd ?r)" by simp
  note t = put_then_get_option [OF a b]
  have 1: "getOption (fst ?r) 282 54 (snd ?r) = Some NULL"
    using t [of 54] by (simp add: example_options_def)
  have 2: "getOption (fst ?r) 282 53 (snd ?r) = Some (Ptr 284) \<and> map (fst ?r) [284..<285] = [3]"
    using t [of 53, THEN conjunct2, rule_format, of "[]" "[3]" "[(55, [1, 2, 3, 6, 51]), (53, [1])]"]
    by (simp add: example_options_def)
  have 3: "getOption (fst ?r) 282 55 (snd ?r) = Some (Ptr 287)
      \<and> map (fst ?r) [287..<292] = [1, 2, 3, 6, 51]"
    using t [of 55, THEN conjunct2, rule_format, of "[(53, [3])]" "[1, 2, 3, 6, 51]" "[(53, [1])]"]
    by (simp add: example_options_def)
  show ?thesis using a 1 2 3 by blast
qed

section \<open>Claim C7: the UDP classify predicate and the checksum field\<close>

text \<open>
  Claim C7 as stated fails on the code: \<^verbatim>\<open>etherIsUdp\<close> has no branch for a zero checksum
  field. The frame \<open>udp_zero_checksum\<close> is a UDP datagram addressed to this host, with a
  correct IP header checksum and the UDP checksum field zero; it is rejected.
\<close>

theorem udp_zero_checksum_rejected:
  "etherIsIp (host_state udp_zero_checksum)
   \<and> etherIsIpUnicast (host_state udp_zero_checksum)
   \<and> data (host_state udp_zero_checksum) 23 = 0x11
   \<and> rd16 (data (host_state udp_zero_checksum)) (l4_off (data (host_state udp_zero_checksum)) + 6) = 0
   \<and> \<not> etherIsUdp (host_state udp_zero_checksum)"
proof -
  let ?st = "host_state udp_zero_checksum"
  have d: "data ?st = mem_of udp_zero_checksum" "ipAddress ?st = mem_of [192, 168, 1, 199]"
    by (simp_all add: host_state_def)
  have l4: "l4_off (mem_of udp_zero_checksum) = 34"
    by (simp add: l4_off_def ip_hlen_def mem_of_nth udp_zero_checksum_def)
  have 1: "etherIsIp ?st"
    unfolding etherIsIp_def Let_def d ip_header_check_def
    by (simp add: ip_hlen_def mem_of_nth udp_zero_checksum_def rd16_def htons_def
        etherSumWords_def sumWords_loop_numeral getEtherChecksum_def fold_carries.simps)
  have 2: "etherIsIpUnicast ?st"
    unfolding etherIsIpUnicast_def d
    by (simp add: IP_ADD_LENGTH_def cmp_loop_numeral mem_of_nth udp_zero_checksum_def)
  have 3: "data ?st 23 = 0x11"
    unfolding d by (simp add: mem_of_nth udp_zero_checksum_def)
  have 4: "rd16 (data ?st) (l4_off (data ?st) + 6) = 0"
    unfolding d l4 by (simp add: rd16_def mem_of_nth udp_zero_checksum_def)
  have 5: "\<not> etherIsUdp ?st"
    unfolding etherIsUdp_def Let_def d l4
    by (simp add: mem_of_nth udp_zero_checksum_def rd16_def htons_def
        etherSumWords_def sumWords_loop_numeral getEtherChecksum_def fold_carries.simps)
  show ?thesis using 1 2 3 4 5 by blast
qed

text \<open>
  Claim C7, amended. \<^verbatim>\<open>etherIsUdp\<close> accepts a received IPv4 datagram exactly when its
  protocol is 17 and its UDP checksum verifies over the pseudo-header and the full UDP
  datagram in the sense of RFC 768 and RFC 1071; a checksum field of zero is summed like
  any other value and is not taken as "no checksum".
\<close>

theorem udp_accepted_iff_checksum_verifies:
  "etherIsUdp st \<longleftrightarrow> data st 23 = 0x11 \<and> udp_checksum_verifies (data st)"
proof (cases "data st 23 = 0x11")
  case False
  then show ?thesis by (simp add: etherIsUdp_def Let_def)
next
  case True
  let ?m = "data st"
  let ?udp = "l4_off ?m"
  let ?len = "udp_length ?m"
  let ?W1 = "wsum ?m 26 8 False" and ?W2 = "wsum ?m (?udp + 4) 2 False"
  let ?W3 = "wsum ?m ?udp ?len False"
  let ?p = "256 * unat (?m 23)"
  let ?s1 = "etherSumWords ?m 26 8 0"
  let ?s2 = "?s1 + push_bit 8 (ucast ((ucast (?m 23) :: u16) AND 0xff))"
  let ?s3 = "etherSumWords ?m (?udp + 4) 2 ?s2"
  let ?s4 = "etherSumWords ?m ?udp ?len ?s3"
  have len: "?len < 65536" unfolding udp_length_def by (rule unat_u16_lt)
  have b1: "?W1 \<le> 8 * 65280" and b2: "?W2 \<le> 2 * 65280" and b3: "?W3 \<le> ?len * 65280"
    by (rule wsum_bound)+
  have "?len * 65280 \<le> 65535 * 65280" using len by simp
  with b1 b2 b3 have bound: "?W1 + ?p + ?W2 + ?W3 < 4294967296"
    using unat_u8_lt [of "?m 23"] by simp
  have s1: "unat ?s1 = ?W1" using b1 by (simp add: unat_etherSumWords)
  have s2: "unat ?s2 = ?W1 + ?p"
    using bound by (simp add: unat_word_ariths s1 unat_proto_shift)
  have "unat ?s3 = (unat ?s2 + ?W2) mod 4294967296" by (rule unat_etherSumWords)
  then have s3: "unat ?s3 = ?W1 + ?p + ?W2"
    unfolding s2 using bound by simp
  have "unat ?s4 = (unat ?s3 + ?W3) mod 4294967296" by (rule unat_etherSumWords)
  then have s4: "unat ?s4 = ?W1 + ?p + ?W2 + ?W3"
    unfolding s3 using bound by simp
  have code: "etherIsUdp st \<longleftrightarrow> getEtherChecksum ?s4 = 0"
    using True by (simp add: etherIsUdp_def Let_def udp_length_def)
  have "le_sum (udp_pseudo_header ?m @ region ?m ?udp ?len) False = ?W1 + ?p + ?W2 + ?W3"
    by (simp add: udp_pseudo_header_def le_sum_append length_region wsum_region)
  then show ?thesis
    using True unfolding code getEtherChecksum_zero_iff s4 udp_checksum_verifies_def rfc1071_ok_iff
    by simp
qed

theorem udp_accepted_iff_checksum_verifies_witness:
  "data (host_state udp_on) 23 = 0x11
   \<and> udp_checksum_verifies (data (host_state udp_on))
   \<and> etherIsUdp (host_state udp_on)"
proof -
  let ?st = "host_state udp_on"
  have d: "data ?st = mem_of udp_on" by (simp add: host_state_def)
  have l4: "l4_off (mem_of udp_on) = 34"
    by (simp add: l4_off_def ip_hlen_def mem_of_nth udp_on_def)
  have len: "udp_length (mem_of udp_on) = 10"
    unfolding udp_length_def l4 by (simp add: rd16_def htons_def mem_of_nth udp_on_def)
  have 1: "data ?st 23 = 0x11" unfolding d by (simp add: mem_of_nth udp_on_def)
  have 2: "udp_checksum_verifies (data ?st)"
    unfolding d udp_checksum_verifies_def udp_pseudo_header_def l4 len
    by (simp add: region_def upt_rec_numeral mem_of_nth udp_on_def rfc1071_ok_def
        rfc1071_sum_def oc_add_def)
  show ?thesis
    using udp_accepted_iff_checksum_verifies [of ?st] 1 2 by blast
qed

section \<open>Byte order and stores\<close>

lemma htons_htons: "htons (htons v) = v"
proof -
  have a: "(0xFF00::u16) = push_bit 8 (mask 8)" "(0x00FF::u16) = mask 8"
    by (simp_all add: mask_eq_exp_minus_1)
  have h: "htons x = drop_bit 8 (x AND push_bit 8 (mask 8)) OR push_bit 8 (x AND mask 8)" for x :: u16
    unfolding htons_def a
    by (rule disjunctive_add_eq_or) (rule bit_word_eqI, auto simp: bit_simps)
  show ?thesis
    unfolding h
  proof (rule bit_word_eqI)
    fix n assume "n < LENGTH(16)"
    then show "bit (drop_bit 8 ((drop_bit 8 (v AND push_bit 8 (mask 8)) OR push_bit 8 (v AND mask 8))
                  AND push_bit 8 (mask 8))
               OR push_bit 8 ((drop_bit 8 (v AND push_bit 8 (mask 8)) OR push_bit 8 (v AND mask 8))
                  AND mask 8)) n = bit v n"
      by (cases "n < 8") (auto simp: bit_simps not_less)
  qed
qed

lemma htols_htols: "htols (htols v) = v"
proof -
  have a: "(0xff000000::u32) = push_bit 24 (mask 8)" "(0x00ff0000::u32) = push_bit 16 (mask 8)"
    "(0x0000ff00::u32) = push_bit 8 (mask 8)" "(0x000000ff::u32) = mask 8"
    by (simp_all add: mask_eq_exp_minus_1)
  have b: "bit (htols x) n \<longleftrightarrow>
      (if n < 8 then bit x (n + 24) else if n < 16 then bit x (n + 8)
       else if n < 24 then bit x (n - 8) else n < 32 \<and> bit x (n - 24))" for x :: u32 and n
    unfolding htols_def Let_def a
    by (auto simp: bit_simps not_less add.commute dest: bit_imp_le_length)
  show ?thesis
    by (rule bit_word_eqI) (auto simp: b not_less)
qed

lemma flag_bit: "flag x n = bit x n"
  by (simp add: flag_def bit_iff_odd_drop_bit and_one_eq odd_iff_mod_2_eq_one)

lemma rd16_wr16: "rd16 (wr16 m a v) a = v"
  unfolding rd16_def wr16_def
  by (rule bit_word_eqI) (auto simp: bit_simps not_less)

lemma rd32_wr32: "rd32 (wr32 m a v) a = v"
proof (rule bit_word_eqI)
  fix n assume "n < LENGTH(32)"
  then show "bit (rd32 (wr32 m a v) a) n = bit v n"
    unfolding rd32_def wr32_def
    by (cases "n < 8"; cases "n < 16"; cases "n < 24") (auto simp: bit_simps not_less)
qed

lemma wr16_apply:
  "wr16 m a v x = (if x = a then ucast v else if x = a + 1 then ucast (drop_bit 8 v) else m x)"
  by (simp add: wr16_def)

lemma wr16_other: "x < a \<or> a + 2 \<le> x \<Longrightarrow> wr16 m a v x = m x"
  by (auto simp: wr16_def)

lemma wr32_other: "x < a \<or> a + 4 \<le> x \<Longrightarrow> wr32 m a v x = m x"
  by (auto simp: wr32_def)

lemma rd16_cong: "m a = m' a \<Longrightarrow> m (a + 1) = m' (a + 1) \<Longrightarrow> rd16 m a = rd16 m' a"
  by (simp add: rd16_def)

lemma rd32_cong:
  "m a = m' a \<Longrightarrow> m (a + 1) = m' (a + 1) \<Longrightarrow> m (a + 2) = m' (a + 2) \<Longrightarrow> m (a + 3) = m' (a + 3)
   \<Longrightarrow> rd32 m a = rd32 m' a"
  by (simp add: rd32_def)

lemma mem_of_map_upt: "x < n \<Longrightarrow> mem_of (map m [0..<n]) x = m x"
  by (simp add: mem_of_def)

section \<open>The TCP reply builders\<close>

lemma etherCalcIpChecksum_other: "x < ip + 10 \<or> ip + 12 \<le> x \<Longrightarrow> etherCalcIpChecksum m ip x = m x"
  by (auto simp: etherCalcIpChecksum_def Let_def wr16_def)

lemma tcp_calc_checksum_other:
  "x < tcp + 16 \<or> tcp + 18 \<le> x \<Longrightarrow> tcp_calc_checksum tcp n m x = m x"
  by (auto simp: tcp_calc_checksum_def Let_def wr16_def)

lemma l4_off_ge: "20 \<le> ip_hlen m 14 \<Longrightarrow> 34 \<le> l4_off m"
  by (simp add: l4_off_def)

lemma l4_off_cong: "m 14 = m' 14 \<Longrightarrow> l4_off m = l4_off m'"
  by (simp add: l4_off_def ip_hlen_def)

text \<open>What \<open>tcp_reply_header\<close> leaves in the buffer.\<close>

lemma tcp_reply_header_props:
  assumes "34 \<le> l4_off (data st)"
  defines "tcp \<equiv> l4_off (data st)"
  defines "st' \<equiv> tcp_reply_header st"
  shows "\<And>x. 12 \<le> x \<Longrightarrow> x < 26 \<or> 34 \<le> x \<Longrightarrow> x < tcp \<or> tcp + 12 \<le> x \<Longrightarrow> data st' x = data st x"
    and "rd32 (data st') (tcp + 8) = htols (tcp_seq (data st) + 1)"
    and "rd32 (data st') (tcp + 4) = htols (currentIsn st)"
    and "currentIsn st' = currentIsn st + 1"
    and "sent st' = sent st"
proof -
  let ?m0 = "data st"
  define ma where "ma = swap_ip_addresses (swap_ether_addresses ?m0)"
  define mb where "mb = wr16 (wr16 ma (tcp + 2) (rd16 ma tcp)) tcp (rd16 ma (tcp + 2))"
  define mc where "mc = wr32 mb (tcp + 8) (htols (htols (rd32 mb (tcp + 4)) + 1))"
  define md where "md = wr32 mc (tcp + 4) (htols (currentIsn st))"
  have st': "st' = st\<lparr>data := md, currentIsn := currentIsn st + 1\<rparr>"
    unfolding st'_def tcp_reply_header_def Let_def md_def mc_def mb_def ma_def tcp_def by simp
  have ma: "ma x = ?m0 x" if "12 \<le> x" "x < 26 \<or> 34 \<le> x" for x
    using that by (auto simp: ma_def swap_ip_other swap_ether_other)
  have mb: "mb x = ma x" if "x < tcp \<or> tcp + 4 \<le> x" for x
    using that by (auto simp: mb_def wr16_def)
  have mc: "mc x = mb x" if "x < tcp + 8 \<or> tcp + 12 \<le> x" for x
    using that by (auto simp: mc_def wr32_def)
  have md: "md x = mc x" if "x < tcp + 4 \<or> tcp + 8 \<le> x" for x
    using that by (auto simp: md_def wr32_def)
  have tcp: "34 \<le> tcp" using assms(1) by (simp add: tcp_def)
  show "data st' x = data st x" if "12 \<le> x" "x < 26 \<or> 34 \<le> x" "x < tcp \<or> tcp + 12 \<le> x" for x
    using that by (auto simp: st' md mc mb ma)
  have seq: "rd32 mb (tcp + 4) = rd32 ?m0 (tcp + 4)"
    using tcp by (intro rd32_cong) (simp_all add: mb ma)
  have "rd32 md (tcp + 8) = rd32 mc (tcp + 8)"
    by (intro rd32_cong) (simp_all add: md)
  also have "\<dots> = htols (htols (rd32 mb (tcp + 4)) + 1)"
    unfolding mc_def by (rule rd32_wr32)
  finally show "rd32 (data st') (tcp + 8) = htols (tcp_seq (data st) + 1)"
    unfolding tcp_seq_def tcp_def [symmetric] by (simp add: st' seq)
  show "rd32 (data st') (tcp + 4) = htols (currentIsn st)"
    by (simp add: st' md_def rd32_wr32)
  show "currentIsn st' = currentIsn st + 1" "sent st' = sent st"
    by (simp_all add: st')
qed

section \<open>Claim C10: stores of \<^verbatim>\<open>getsUart0\<close>\<close>

lemma getsUart0_loop_spaces:
  assumes "charCount d + k < cmod"
  shows "stores (snd (getsUart0_loop maxc cmod (replicate k 0x20) d))
       = stores d @ [charCount d..<charCount d + k]"
  using assms
proof (induction k arbitrary: d)
  case 0
  show ?case by simp
next
  case (Suc k)
  let ?d = "(store_char 0 d)\<lparr>charCount := (charCount (store_char 0 d) + 1) mod cmod\<rparr>"
  have cc: "charCount ?d = charCount d + 1"
    using Suc.prems by (simp add: store_char_def)
  have st: "stores ?d = stores d @ [charCount d]"
    by (simp add: store_char_def)
  have "charCount ?d + k < cmod" using Suc.prems cc by simp
  then have "stores (snd (getsUart0_loop maxc cmod (replicate k 0x20) ?d))
      = stores ?d @ [charCount ?d..<charCount ?d + k]"
    by (rule Suc.IH)
  moreover have "getsUart0_loop maxc cmod (replicate (Suc k) 0x20) d
      = getsUart0_loop maxc cmod (replicate k 0x20) ?d"
    by (simp add: is_alnum_def Let_def)
  ultimately show ?case
    unfolding cc st by (simp add: upt_conv_Cons)
qed

text \<open>
  Claim C10 fails on the code: the branch for a non-alphanumeric character stores a NUL
  and increments \<^verbatim>\<open>charCount\<close> without the test against \<^verbatim>\<open>MAX_CHARS\<close> that the
  alphanumeric branch makes. Whenever the counter can hold \<open>maxc + 1\<close>, the input of
  \<open>maxc + 2\<close> blanks makes \<^verbatim>\<open>getsUart0\<close> store at index \<open>maxc + 1\<close>, beyond \<^verbatim>\<open>MAX_CHARS\<close>,
  and the call has not returned yet.
\<close>

theorem getsUart0_store_beyond_MAX_CHARS:
  assumes "maxc + 2 < cmod"
  shows "maxc + 1 \<in> set (stores (snd (getsUart0 maxc cmod (replicate (maxc + 2) 0x20) d)))
       \<and> fst (getsUart0 maxc cmod (replicate (maxc + 2) 0x20) d) = Waiting"
proof -
  let ?d = "d\<lparr>charCount := 0, stores := []\<rparr>"
  have "stores (snd (getsUart0_loop maxc cmod (replicate (maxc + 2) 0x20) ?d))
      = stores ?d @ [charCount ?d..<charCount ?d + (maxc + 2)]"
    using assms by (intro getsUart0_loop_spaces) simp
  then have 1: "maxc + 1 \<in> set (stores (snd (getsUart0 maxc cmod (replicate (maxc + 2) 0x20) d)))"
    unfolding getsUart0_def by simp
  have "fst (getsUart0_loop maxc cmod (replicate k 0x20) e) = Waiting" for k e
    by (induction k arbitrary: e) (simp_all add: is_alnum_def Let_def)
  then have 2: "fst (getsUart0 maxc cmod (replicate (maxc + 2) 0x20) d) = Waiting"
    unfolding getsUart0_def by blast
  show ?thesis using 1 2 by blast
qed

theorem getsUart0_store_beyond_MAX_CHARS_witness:
  "(80::nat) + 2 < 256
   \<and> 81 \<in> set (stores (snd (getsUart0 80 256 (replicate 82 0x20)
        \<lparr>buffer = (\<lambda>i. 0), charCount = 0, stores = []\<rparr>)))
   \<and> fst (getsUart0 80 256 (replicate 82 0x20)
        \<lparr>buffer = (\<lambda>i. 0), charCount = 0, stores = []\<rparr>) = Waiting"
  using getsUart0_store_beyond_MAX_CHARS [of 80 256 "\<lparr>buffer = (\<lambda>i. 0), charCount = 0, stores = []\<rparr>"]
  by simp

end
